theory Spec2Isabelle
  imports Complex_Main "HOL-Library.Char_ord" "HOL-Library.List_Lexorder"
    "HOL-Library.Product_Lexorder" "HOL-Library.Multiset"
begin

section \<open>Data model of the picklist generator\<close>

text \<open>
  The development embeds \<^verbatim>\<open>generate_picklists.py\<close> (the packer) and the quality score of
  \<^verbatim>\<open>evaluation.py\<close> (the reporter). Python integers are \<^typ>\<open>int\<close>. Python floats
  (weights in kilograms) are modelled by exact rationals: every finite float is a rational, and
  the arithmetic of the model does not round. Strings are \<^typ>\<open>string\<close>, compared
  lexicographically by character code as Python does.
\<close>

text \<open>One normalized row of the data frame (the columns \<^verbatim>\<open>_order\<close>, \<^verbatim>\<open>_store\<close>,
  \<^verbatim>\<open>_sku\<close>, \<^verbatim>\<open>_qty\<close>, \<^verbatim>\<open>_zone\<close>, \<^verbatim>\<open>_bin\<close>, \<^verbatim>\<open>_binrank\<close>, \<^verbatim>\<open>_priority\<close>,
  \<^verbatim>\<open>_weight\<close>, \<^verbatim>\<open>_fragile\<close>, \<^verbatim>\<open>_cutoff\<close> written by \<^verbatim>\<open>read_and_normalize\<close>). The cutoff
  timestamp is its position on the time line.\<close>

record item_line =
  row_order :: string
  row_store :: string
  row_sku :: string
  row_qty :: int
  row_zone :: string
  row_bin :: string
  row_binrank :: string
  row_priority :: int
  row_weight :: rat
  row_fragile :: bool
  row_cutoff :: int

text \<open>One entry of \<^verbatim>\<open>items\<close>: a line of a picklist file.\<close>

record pick_line =
  sku :: string
  order_id :: string
  store :: string
  bin :: string
  bin_rank :: string
  qty :: int
  unit_weight :: rat
  fragile :: bool

text \<open>One entry of \<^verbatim>\<open>summary\<close>.\<close>

record summary_row =
  picklist_file :: string
  zone :: string
  picklist_no :: int
  picklist_type :: string
  total_units :: int
  total_weight :: rat
  distinct_orders :: nat
  distinct_bins :: nat

datatype pack_error = AssertionError

text \<open>
  The mutable variables of \<^verbatim>\<open>generate_picklists\<close> and of the running \<^verbatim>\<open>process_zone\<close>:
  the open bin (\<^verbatim>\<open>cur_units\<close>, \<^verbatim>\<open>cur_weight\<close>, \<^verbatim>\<open>items\<close>, \<^verbatim>\<open>orders\<close>, \<^verbatim>\<open>bins\<close>), the
  per-group counter \<^verbatim>\<open>pl_no\<close>, the run-wide \<^verbatim>\<open>summary\<close> and \<^verbatim>\<open>total_picklists\<close>, and the
  log of the picklist files written by \<^verbatim>\<open>to_csv\<close>, in the order of the writes.
\<close>

record pack_state =
  cur_units :: int
  cur_weight :: rat
  items :: "pick_line list"
  orders :: "string set"
  bins :: "string set"
  pl_no :: int
  summary :: "summary_row list"
  total_picklists :: int
  written :: "(string \<times> pick_line list) list"

section \<open>Configuration\<close>

definition PICKLIST_UNIT_CAP :: int where
  "PICKLIST_UNIT_CAP = 2000"

definition PICKLIST_WEIGHT_CAP :: rat where
  "PICKLIST_WEIGHT_CAP = 200"

definition FRAGILE_WEIGHT_CAP :: rat where
  "FRAGILE_WEIGHT_CAP = 50"

text \<open>\<^verbatim>\<open>cap_units\<close> and \<^verbatim>\<open>cap_weight\<close> of \<^verbatim>\<open>process_zone\<close>.\<close>

definition cap_units :: int where
  "cap_units = PICKLIST_UNIT_CAP"

definition cap_weight :: "bool \<Rightarrow> rat" where
  "cap_weight fragile_group = (if fragile_group then FRAGILE_WEIGHT_CAP else PICKLIST_WEIGHT_CAP)"

section \<open>Library functions the packer calls\<close>

text \<open>Decimal rendering of an integer, as an f-string renders \<^verbatim>\<open>{pl_no}\<close>.\<close>

definition digit_char :: "nat \<Rightarrow> char" where
  "digit_char d = char_of (48 + d)"

function str_nat :: "nat \<Rightarrow> string" where
  "str_nat n = (if n < 10 then [digit_char n] else str_nat (n div 10) @ [digit_char (n mod 10)])"
  by pat_completeness auto
termination
  by (relation "measure id") auto

definition str_int :: "int \<Rightarrow> string" where
  "str_int i = (if i < 0 then CHR ''-'' # str_nat (nat (- i)) else str_nat (nat i))"

text \<open>Python's \<^verbatim>\<open>int(x)\<close> on a float truncates toward zero.\<close>

definition py_int :: "rat \<Rightarrow> int" where
  "py_int x = (if 0 \<le> x then \<lfloor>x\<rfloor> else \<lceil>x\<rceil>)"

text \<open>
  \<^verbatim>\<open>df.sort_values(by=["_cutoff", "_priority", "_order"])\<close>: ascending on the three columns,
  compared lexicographically. With several columns pandas sorts through its lexicographic
  indexer, which keeps rows of equal key in their input order; the model is the stable
  insertion sort on the key triple.
\<close>

definition sort_key3 :: "item_line \<Rightarrow> int \<times> int \<times> string" where
  "sort_key3 r = (row_cutoff r, row_priority r, row_order r)"

definition sort_values :: "item_line list \<Rightarrow> item_line list" where
  "sort_values df = sort_key sort_key3 df"

text \<open>
  \<^verbatim>\<open>df.groupby("_zone")\<close>, iterated: one group per distinct zone, the zones in ascending
  order, every group holding its rows in the order of the frame.
\<close>

definition groupby_zone :: "item_line list \<Rightarrow> (string \<times> item_line list) list" where
  "groupby_zone df =
     map (\<lambda>z. (z, filter (\<lambda>r. row_zone r = z) df)) (sort (remdups (map row_zone df)))"

section \<open>The packer\<close>

text \<open>
  \<^verbatim>\<open>flush\<close>. The file name reads the clock: \<^verbatim>\<open>today k\<close> is the text of
  \<^verbatim>\<open>datetime.now().date()\<close> at the \<open>k\<close>-th picklist of the run.
\<close>

definition flush :: "(int \<Rightarrow> string) \<Rightarrow> string \<Rightarrow> bool \<Rightarrow> pack_state \<Rightarrow> pack_state" where
  "flush today zn fragile_group s =
     (if items s = [] then s
      else
        let pl = pl_no s + 1;
            tp = total_picklists s + 1;
            fname = today tp @ ''_ZONE_'' @ zn @ ''_PL'' @ str_int pl @ ''.csv''
        in s\<lparr> pl_no := pl,
              total_picklists := tp,
              written := written s @ [(fname, items s)],
              summary := summary s @
                [\<lparr> picklist_file = fname,
                   zone = zn,
                   picklist_no = pl,
                   picklist_type = (if fragile_group then ''fragile'' else ''normal''),
                   total_units = cur_units s,
                   total_weight = cur_weight s,
                   distinct_orders = card (orders s),
                   distinct_bins = card (bins s) \<rparr>],
              cur_units := 0,
              cur_weight := 0,
              items := [],
              orders := {},
              bins := {} \<rparr>)"

text \<open>The quantities computed at the head of one iteration of the \<^verbatim>\<open>while\<close> loop.\<close>

definition available_units :: "pack_state \<Rightarrow> int" where
  "available_units s = cap_units - cur_units s"

definition available_weight :: "bool \<Rightarrow> pack_state \<Rightarrow> rat" where
  "available_weight fragile_group s = cap_weight fragile_group - cur_weight s"

definition max_by_weight :: "bool \<Rightarrow> rat \<Rightarrow> int \<Rightarrow> pack_state \<Rightarrow> int" where
  "max_by_weight fragile_group unit_wt remaining s =
     (if unit_wt > 0 then py_int (available_weight fragile_group s / unit_wt) else remaining)"

definition take_qty :: "bool \<Rightarrow> rat \<Rightarrow> int \<Rightarrow> pack_state \<Rightarrow> int" where
  "take_qty fragile_group unit_wt remaining s =
     min remaining (min (available_units s) (max_by_weight fragile_group unit_wt remaining s))"

text \<open>The body of the loop after \<^verbatim>\<open>take\<close> is known to be positive: append the line and
  update the open bin.\<close>

definition add_line :: "item_line \<Rightarrow> int \<Rightarrow> pack_state \<Rightarrow> pack_state" where
  "add_line row taken s =
     s\<lparr> items := items s @
            [\<lparr> sku = row_sku row,
               order_id = row_order row,
               store = row_store row,
               bin = row_bin row,
               bin_rank = row_binrank row,
               qty = taken,
               unit_weight = row_weight row,
               fragile = row_fragile row \<rparr>],
         cur_units := cur_units s + taken,
         cur_weight := cur_weight s + of_int taken * row_weight row,
         orders := insert (row_order row) (orders s),
         bins := insert (row_bin row) (bins s) \<rparr>"

text \<open>
  The \<^verbatim>\<open>while remaining > 0\<close> loop for one row. The loop need not end, so the result is an
  option: \<open>None\<close> is a run that never leaves the loop, \<open>Some (Inl AssertionError)\<close> a failed
  \<^verbatim>\<open>assert\<close>, \<open>Some (Inr s)\<close> the state at the normal exit.
\<close>

partial_function (option) pack_row ::
  "(int \<Rightarrow> string) \<Rightarrow> string \<Rightarrow> bool \<Rightarrow> item_line \<Rightarrow> int \<Rightarrow> pack_state
     \<Rightarrow> (pack_error + pack_state) option" where
  "pack_row today zn fragile_group row remaining s =
     (if remaining > 0 then
        if available_units s \<le> 0 \<or> available_weight fragile_group s \<le> 0 then
          pack_row today zn fragile_group row remaining (flush today zn fragile_group s)
        else
          let taken = take_qty fragile_group (row_weight row) remaining s in
          if taken \<le> 0 then
            pack_row today zn fragile_group row remaining (flush today zn fragile_group s)
          else
            let s' = add_line row taken s in
            if cur_weight s' \<le> cap_weight fragile_group + 1 / 1000000 then
              pack_row today zn fragile_group row (remaining - taken) s'
            else Some (Inl AssertionError)
      else Some (Inr s))"

declare pack_row.simps [code]

text \<open>The \<^verbatim>\<open>for row in group\<close> loop.\<close>

fun pack_rows ::
  "(int \<Rightarrow> string) \<Rightarrow> string \<Rightarrow> bool \<Rightarrow> item_line list \<Rightarrow> pack_state
     \<Rightarrow> (pack_error + pack_state) option" where
  "pack_rows today zn fragile_group [] s = Some (Inr s)"
| "pack_rows today zn fragile_group (row # rows) s =
     (case pack_row today zn fragile_group row (row_qty row) s of
        None \<Rightarrow> None
      | Some (Inl e) \<Rightarrow> Some (Inl e)
      | Some (Inr s') \<Rightarrow> pack_rows today zn fragile_group rows s')"

text \<open>\<^verbatim>\<open>process_zone\<close>: a fresh open bin and counter, the rows of the group, the last flush.\<close>

definition open_group :: "pack_state \<Rightarrow> pack_state" where
  "open_group s =
     s\<lparr> cur_units := 0, cur_weight := 0, items := [], orders := {}, bins := {}, pl_no := 0 \<rparr>"

definition process_zone ::
  "(int \<Rightarrow> string) \<Rightarrow> item_line list \<Rightarrow> string \<Rightarrow> bool \<Rightarrow> pack_state
     \<Rightarrow> (pack_error + pack_state) option" where
  "process_zone today grp zn fragile_group s =
     (case pack_rows today zn fragile_group grp (open_group s) of
        None \<Rightarrow> None
      | Some (Inl e) \<Rightarrow> Some (Inl e)
      | Some (Inr s') \<Rightarrow> Some (Inr (flush today zn fragile_group s')))"

text \<open>The loop over the groups of one stream.\<close>

fun process_groups ::
  "(int \<Rightarrow> string) \<Rightarrow> bool \<Rightarrow> (string \<times> item_line list) list \<Rightarrow> pack_state
     \<Rightarrow> (pack_error + pack_state) option" where
  "process_groups today fragile_group [] s = Some (Inr s)"
| "process_groups today fragile_group ((zn, g) # gs) s =
     (case process_zone today g zn fragile_group s of
        None \<Rightarrow> None
      | Some (Inl e) \<Rightarrow> Some (Inl e)
      | Some (Inr s') \<Rightarrow> process_groups today fragile_group gs s')"

definition initial_state :: pack_state where
  "initial_state =
     \<lparr> cur_units = 0, cur_weight = 0, items = [], orders = {}, bins = {}, pl_no = 0,
       summary = [], total_picklists = 0, written = [] \<rparr>"

text \<open>
  \<^verbatim>\<open>generate_picklists\<close>: sort, split by fragility, pack the normal zones, then the fragile
  ones. The final state holds what the run leaves: \<^verbatim>\<open>summary\<close> (written to
  \<^verbatim>\<open>Summary.csv\<close>), \<^verbatim>\<open>total_picklists\<close> and the picklist files.
\<close>

definition generate_picklists ::
  "(int \<Rightarrow> string) \<Rightarrow> item_line list \<Rightarrow> (pack_error + pack_state) option" where
  "generate_picklists today df0 =
     (let df = sort_values df0;
          fragile_df = filter (\<lambda>r. row_fragile r) df;
          normal_df = filter (\<lambda>r. \<not> row_fragile r) df
      in case process_groups today False (groupby_zone normal_df) initial_state of
           None \<Rightarrow> None
         | Some (Inl e) \<Rightarrow> Some (Inl e)
         | Some (Inr s) \<Rightarrow> process_groups today True (groupby_zone fragile_df) s)"

section \<open>The reporter's quality score\<close>

text \<open>
  \<^verbatim>\<open>evaluate_picklists\<close> of \<^verbatim>\<open>evaluation.py\<close>, on the rows of \<^verbatim>\<open>Summary.csv\<close>. The columns
  it adds to the frame are functions of a row. \<^verbatim>\<open>mean\<close> is the mean of a column; pandas
  gives \<^verbatim>\<open>NaN\<close> for an empty column, which the model does not represent, so the mean is
  meaningful for non-empty columns only.
\<close>

definition mean :: "rat list \<Rightarrow> rat" where
  "mean xs = sum_list xs / of_nat (length xs)"

definition clip :: "rat \<Rightarrow> rat \<Rightarrow> rat \<Rightarrow> rat" where
  "clip x lo hi = min hi (max lo x)"

text \<open>Step 0, the weight unit sanity check.\<close>

definition rescale_weights :: "summary_row list \<Rightarrow> summary_row list" where
  "rescale_weights df =
     (if mean (map total_weight df) > 1000
      then map (\<lambda>r. r\<lparr> total_weight := total_weight r / 1000 \<rparr>) df
      else df)"

definition weight_cap :: "summary_row \<Rightarrow> rat" where
  "weight_cap r =
     (if picklist_type r = ''fragile'' then FRAGILE_WEIGHT_CAP else PICKLIST_WEIGHT_CAP)"

definition unit_violation :: "summary_row \<Rightarrow> bool" where
  "unit_violation r = (total_units r > PICKLIST_UNIT_CAP)"

definition weight_violation :: "summary_row \<Rightarrow> bool" where
  "weight_violation r = (total_weight r > weight_cap r)"

definition total_violations :: "summary_row list \<Rightarrow> nat" where
  "total_violations df = length (filter (\<lambda>r. unit_violation r \<or> weight_violation r) df)"

definition violation_rate :: "summary_row list \<Rightarrow> rat" where
  "violation_rate df =
     (if length df > 0 then of_nat (total_violations df) / of_nat (length df) * 100 else 0)"

definition effective_weight :: "summary_row \<Rightarrow> rat" where
  "effective_weight r = min (total_weight r) (weight_cap r)"

definition unit_util_pct :: "summary_row \<Rightarrow> rat" where
  "unit_util_pct r = of_int (total_units r) / of_int PICKLIST_UNIT_CAP * 100"

definition weight_util_pct :: "summary_row \<Rightarrow> rat" where
  "weight_util_pct r = effective_weight r / weight_cap r * 100"

definition avg_unit_util :: "summary_row list \<Rightarrow> rat" where
  "avg_unit_util df = mean (map unit_util_pct df)"

definition avg_weight_util :: "summary_row list \<Rightarrow> rat" where
  "avg_weight_util df = mean (map weight_util_pct df)"

definition avg_orders :: "summary_row list \<Rightarrow> rat" where
  "avg_orders df = mean (map (\<lambda>r. of_nat (distinct_orders r)) df)"

text \<open>Step 10 of \<^verbatim>\<open>evaluate_picklists\<close>: the value stored under \<^verbatim>\<open>"PQS"\<close>.\<close>

definition PQS :: "summary_row list \<Rightarrow> rat" where
  "PQS summary_csv =
     (let df = rescale_weights summary_csv;
          unit_eff = clip (avg_unit_util df / 100) 0 1;
          weight_eff = clip (avg_weight_util df / 100) 0 1;
          order_eff = clip (avg_orders df / 20) 0 1;
          correctness = 1 - violation_rate df / 100
      in 4 / 10 * unit_eff + 3 / 10 * weight_eff + 2 / 10 * order_eff + 1 / 10 * correctness)"

text \<open>
  The score as the specification words it, from the four aggregates: each of the first
  three is clipped into the unit interval.
\<close>

definition clip_unit :: "rat \<Rightarrow> rat" where
  "clip_unit x = (if x < 0 then 0 else if x > 1 then 1 else x)"

definition PQS_spec :: "rat \<Rightarrow> rat \<Rightarrow> rat \<Rightarrow> rat \<Rightarrow> rat" where
  "PQS_spec unit_util weight_util orders_per_picklist viol_rate =
     4 / 10 * clip_unit (unit_util / 100) + 3 / 10 * clip_unit (weight_util / 100)
       + 2 / 10 * clip_unit (orders_per_picklist / 20) + 1 / 10 * (1 - viol_rate / 100)"

section \<open>Notions the properties are stated with\<close>

text \<open>The units and the weight of a list of picklist lines, summed in order.\<close>

definition lines_units :: "pick_line list \<Rightarrow> int" where
  "lines_units ls = sum_list (map qty ls)"

definition lines_weight :: "pick_line list \<Rightarrow> rat" where
  "lines_weight ls = sum_list (map (\<lambda>l. of_int (qty l) * unit_weight l) ls)"

text \<open>Every line the run holds: the lines of the files written so far, then the open bin.\<close>

definition all_lines :: "pack_state \<Rightarrow> pick_line list" where
  "all_lines s = concat (map snd (written s)) @ items s"

text \<open>A line carries the fields of the row it was cut from.\<close>

definition derived_from :: "item_line \<Rightarrow> pick_line \<Rightarrow> bool" where
  "derived_from row l =
     (sku l = row_sku row \<and> order_id l = row_order row \<and> store l = row_store row
      \<and> bin l = row_bin row \<and> bin_rank l = row_binrank row
      \<and> unit_weight l = row_weight row \<and> fragile l = row_fragile row)"

text \<open>
  The lines cut from one row: each carries the row's fields, and their \<^verbatim>\<open>qty\<close> add up to
  the row's quantity (to nothing for a row whose quantity is not positive).
\<close>

definition cut_from :: "item_line \<Rightarrow> pick_line list \<Rightarrow> bool" where
  "cut_from row part =
     (list_all (derived_from row) part \<and> lines_units part = max 0 (row_qty row))"

text \<open>
  The order in which \<^verbatim>\<open>generate_picklists\<close> hands the rows of a frame to the \<^verbatim>\<open>while\<close>
  loop: the sorted frame, the normal rows zone by zone, then the fragile rows zone by zone.
\<close>

definition pack_order :: "item_line list \<Rightarrow> item_line list" where
  "pack_order df0 =
     concat (map snd (groupby_zone (filter (\<lambda>r. \<not> row_fragile r) (sort_values df0))))
     @ concat (map snd (groupby_zone (filter (\<lambda>r. row_fragile r) (sort_values df0))))"

text \<open>The open bin agrees with its lines and is within the caps of its group.\<close>

definition open_bin_ok :: "bool \<Rightarrow> pack_state \<Rightarrow> bool" where
  "open_bin_ok fragile_group s =
     (cur_units s = lines_units (items s) \<and> cur_weight s = lines_weight (items s)
      \<and> orders s = order_id ` set (items s) \<and> bins s = bin ` set (items s)
      \<and> list_all (\<lambda>l. 0 < qty l) (items s)
      \<and> cur_units s \<le> cap_units \<and> cur_weight s \<le> cap_weight fragile_group)"

text \<open>A summary row agrees with the file written by the same flush.\<close>

definition row_matches :: "summary_row \<Rightarrow> string \<times> pick_line list \<Rightarrow> bool" where
  "row_matches r f =
     (picklist_file r = fst f \<and> total_units r = lines_units (snd f)
      \<and> total_weight r = lines_weight (snd f)
      \<and> distinct_orders r = card (order_id ` set (snd f))
      \<and> distinct_bins r = card (bin ` set (snd f)))"

definition row_within_caps :: "summary_row \<Rightarrow> bool" where
  "row_within_caps r = (total_units r \<le> PICKLIST_UNIT_CAP \<and> total_weight r \<le> weight_cap r)"

definition file_nonempty :: "string \<times> pick_line list \<Rightarrow> bool" where
  "file_nonempty f = (snd f \<noteq> [] \<and> list_all (\<lambda>l. 0 < qty l) (snd f))"

definition emitted_ok :: "pack_state \<Rightarrow> bool" where
  "emitted_ok s =
     (list_all2 row_matches (summary s) (written s) \<and> list_all row_within_caps (summary s)
      \<and> list_all file_nonempty (written s))"

text \<open>The state with the file names blanked, in the summary and in the log of writes.\<close>

definition without_file_names :: "pack_state \<Rightarrow> pack_state" where
  "without_file_names s =
     s\<lparr> summary := map (\<lambda>r. r\<lparr> picklist_file := [] \<rparr>) (summary s),
         written := map (\<lambda>f. ([], snd f)) (written s) \<rparr>"

section \<open>Sample inputs\<close>

definition sample_row :: "string \<Rightarrow> int \<Rightarrow> string \<Rightarrow> rat \<Rightarrow> bool \<Rightarrow> item_line" where
  "sample_row oid q z w f =
     \<lparr> row_order = oid, row_store = ''S1'', row_sku = ''K1'', row_qty = q, row_zone = z,
       row_bin = ''B1'', row_binrank = [], row_priority = 1, row_weight = w, row_fragile = f,
       row_cutoff = 0 \<rparr>"

definition first_of_may :: "int \<Rightarrow> string" where
  "first_of_may k = ''2024-05-01''"

definition second_of_may :: "int \<Rightarrow> string" where
  "second_of_may k = ''2024-05-02''"

text \<open>Three normal lines of 0.1 kg in zone A with quantities 2500, 1 and 1, and a fragile
  line in the same zone.\<close>

definition sample_df :: "item_line list" where
  "sample_df =
     [sample_row ''o1'' 2500 ''A'' (1 / 10) False, sample_row ''o2'' 1 ''A'' (1 / 10) False,
      sample_row ''o3'' 1 ''A'' (1 / 10) False, sample_row ''o4'' 2 ''A'' 20 True]"

definition sample_line :: "string \<Rightarrow> int \<Rightarrow> rat \<Rightarrow> bool \<Rightarrow> pick_line" where
  "sample_line oid q w f =
     \<lparr> sku = ''K1'', order_id = oid, store = ''S1'', bin = ''B1'', bin_rank = [], qty = q,
       unit_weight = w, fragile = f \<rparr>"

definition sample_summary :: "summary_row list" where
  "sample_summary =
     [\<lparr> picklist_file = ''2024-05-01_ZONE_A_PL1.csv'', zone = ''A'', picklist_no = 1,
        picklist_type = ''normal'', total_units = 2000, total_weight = 200,
        distinct_orders = 1, distinct_bins = 1 \<rparr>,
      \<lparr> picklist_file = ''2024-05-01_ZONE_A_PL2.csv'', zone = ''A'', picklist_no = 2,
        picklist_type = ''normal'', total_units = 502, total_weight = 502 / 10,
        distinct_orders = 3, distinct_bins = 1 \<rparr>,
      \<lparr> picklist_file = ''2024-05-01_ZONE_A_PL1.csv'', zone = ''A'', picklist_no = 1,
        picklist_type = ''fragile'', total_units = 2, total_weight = 40,
        distinct_orders = 1, distinct_bins = 1 \<rparr>]"

definition sample_written :: "(string \<times> pick_line list) list" where
  "sample_written =
     [(''2024-05-01_ZONE_A_PL1.csv'', [sample_line ''o1'' 2000 (1 / 10) False]),
      (''2024-05-01_ZONE_A_PL2.csv'',
         [sample_line ''o1'' 500 (1 / 10) False, sample_line ''o2'' 1 (1 / 10) False,
          sample_line ''o3'' 1 (1 / 10) False]),
      (''2024-05-01_ZONE_A_PL1.csv'', [sample_line ''o4'' 2 20 True])]"

definition sample_out :: pack_state where
  "sample_out =
     \<lparr> cur_units = 0, cur_weight = 0, items = [], orders = {}, bins = {}, pl_no = 1,
       summary = sample_summary, total_picklists = 3, written = sample_written \<rparr>"

text \<open>The lines of the sample run, row by row in the order of packing.\<close>

definition sample_parts :: "pick_line list list" where
  "sample_parts =
     [[sample_line ''o1'' 2000 (1 / 10) False, sample_line ''o1'' 500 (1 / 10) False],
      [sample_line ''o2'' 1 (1 / 10) False], [sample_line ''o3'' 1 (1 / 10) False],
      [sample_line ''o4'' 2 20 True]]"

text \<open>Two normal rows of one zone, the later cutoff first in the frame.\<close>

definition late_row :: item_line where
  "late_row = (sample_row ''late'' 3 ''A'' 1 False)\<lparr> row_cutoff := 9 \<rparr>"

definition early_row :: item_line where
  "early_row = (sample_row ''early'' 5 ''A'' 1 False)\<lparr> row_cutoff := 2 \<rparr>"

definition unsorted_df :: "item_line list" where
  "unsorted_df = [late_row, early_row]"

definition unsorted_out :: pack_state where
  "unsorted_out =
     \<lparr> cur_units = 0, cur_weight = 0, items = [], orders = {}, bins = {}, pl_no = 1,
       summary =
         [\<lparr> picklist_file = ''2024-05-01_ZONE_A_PL1.csv'', zone = ''A'', picklist_no = 1,
            picklist_type = ''normal'', total_units = 8, total_weight = 8,
            distinct_orders = 2, distinct_bins = 1 \<rparr>],
       total_picklists = 1,
       written =
         [(''2024-05-01_ZONE_A_PL1.csv'',
           [sample_line ''early'' 5 1 False, sample_line ''late'' 3 1 False])] \<rparr>"

text \<open>One fragile line of 60 kg: heavier than the fragile cap of 50 kg.\<close>

definition heavy_row :: item_line where
  "heavy_row = sample_row ''o9'' 1 ''A'' 60 True"

section \<open>Properties\<close>

lemma sample_run: "generate_picklists first_of_may sample_df = Some (Inr sample_out)"
  by code_simp

subsection \<open>A proof rule for the loop\<close>

text \<open>
  An invariant of the \<^verbatim>\<open>while\<close> loop, kept by a flush and by the placement of a line, holds
  at the normal exit, where nothing remains. A failed \<^verbatim>\<open>assert\<close> can only come from a
  placement that broke the weight cap.
\<close>

lemma pack_row_rule:
  assumes run: "pack_row today zn fg row remaining s = Some res"
    and init: "I remaining s"
    and fl: "\<And>rem s. I rem s \<Longrightarrow> 0 < rem \<Longrightarrow> I rem (flush today zn fg s)"
    and ad: "\<And>rem s. I rem s \<Longrightarrow> 0 < rem \<Longrightarrow> 0 < available_units s \<Longrightarrow> 0 < available_weight fg s
               \<Longrightarrow> 0 < take_qty fg (row_weight row) rem s
               \<Longrightarrow> I (rem - take_qty fg (row_weight row) rem s)
                     (add_line row (take_qty fg (row_weight row) rem s) s)"
  shows "case res of
           Inl e \<Rightarrow> \<exists>rem s. 0 < available_weight fg s \<and> 0 < take_qty fg (row_weight row) rem s
                    \<and> \<not> cur_weight (add_line row (take_qty fg (row_weight row) rem s) s)
                          \<le> cap_weight fg + 1 / 1000000
         | Inr s' \<Rightarrow> \<exists>rem'. rem' \<le> 0 \<and> I rem' s'"
proof -
  define Q where "Q = (\<lambda>res. case res of
           Inl (e::pack_error) \<Rightarrow> \<exists>rem s. 0 < available_weight fg s \<and> 0 < take_qty fg (row_weight row) rem s
                    \<and> \<not> cur_weight (add_line row (take_qty fg (row_weight row) rem s) s)
                          \<le> cap_weight fg + 1 / 1000000
         | Inr s' \<Rightarrow> \<exists>rem'. rem' \<le> 0 \<and> I rem' s')"
  define P where "P = (\<lambda>t z f r rem s res.
     t = today \<and> z = zn \<and> f = fg \<and> r = row \<and> I rem s \<longrightarrow> Q res)"
  have "P today zn fg row remaining s res"
  proof (rule pack_row.raw_induct[where P = P, OF _ run], goal_cases)
    case (1 pr t z f r rem s res)
    note IH = 1(1) and eq = 1(2)
    show ?case
      unfolding P_def
    proof (intro impI, elim conjE)
      assume par: "t = today" "z = zn" "f = fg" "r = row" and inv: "I rem s"
      show "Q res"
      proof (cases "0 < rem")
        case False
        with eq have "res = Inr s" by simp
        with False inv show ?thesis
          by (auto simp: Q_def not_less intro!: exI[of _ rem])
      next
        case pos: True
        let ?t = "take_qty fg (row_weight row) rem s"
        consider (fl) "available_units s \<le> 0 \<or> available_weight fg s \<le> 0 \<or> ?t \<le> 0"
          | (bad) "0 < available_units s" "0 < available_weight fg s" "0 < ?t"
                  "\<not> cur_weight (add_line row ?t s) \<le> cap_weight fg + 1 / 1000000"
          | (ad) "0 < available_units s" "0 < available_weight fg s" "0 < ?t"
                  "cur_weight (add_line row ?t s) \<le> cap_weight fg + 1 / 1000000"
          by linarith
        then show ?thesis
        proof cases
          case fl
          with pos eq par have "pr today zn fg row rem (flush today zn fg s) = Some res"
            by (auto simp: Let_def split: if_splits)
          moreover have "I rem (flush today zn fg s)"
            using inv pos by (rule assms(3))
          ultimately show ?thesis
            using IH unfolding P_def by blast
        next
          case bad
          with pos eq par have "res = Inl AssertionError"
            by (auto simp: Let_def split: if_splits)
          with bad show ?thesis unfolding Q_def by auto
        next
          case ad
          with pos eq par have "pr today zn fg row (rem - ?t) (add_line row ?t s) = Some res"
            by (auto simp: Let_def split: if_splits)
          moreover have "I (rem - ?t) (add_line row ?t s)"
            using inv pos ad(1,2,3) by (rule assms(4))
          ultimately show ?thesis
            using IH unfolding P_def by blast
        qed
      qed
    qed
  qed
  with init show ?thesis by (simp add: P_def Q_def)
qed

subsection \<open>What one placement takes\<close>

lemma py_int_nonneg: "0 \<le> x \<Longrightarrow> py_int x = \<lfloor>x\<rfloor>"
  by (simp add: py_int_def)

lemma take_weight_fits:
  assumes av: "0 < available_weight fg s" and tk: "0 < take_qty fg w rem s"
  shows "of_int (take_qty fg w rem s) * w \<le> available_weight fg s"
proof (cases "0 < w")
  case True
  let ?a = "available_weight fg s"
  have "take_qty fg w rem s \<le> py_int (?a / w)"
    using True by (simp add: take_qty_def max_by_weight_def)
  also have "py_int (?a / w) = \<lfloor>?a / w\<rfloor>"
    using True av by (simp add: py_int_nonneg)
  finally have "of_int (take_qty fg w rem s) \<le> ?a / w"
    by (simp add: le_floor_iff)
  then show ?thesis
    using True by (simp add: pos_le_divide_eq)
next
  case False
  then have "of_int (take_qty fg w rem s) * w \<le> 0"
    using tk by (simp add: mult_nonneg_nonpos)
  with av show ?thesis by simp
qed

lemma assert_holds:
  assumes "0 < available_weight fg s" and "0 < take_qty fg (row_weight row) rem s"
  shows "cur_weight (add_line row (take_qty fg (row_weight row) rem s) s)
           \<le> cap_weight fg + 1 / 1000000"
proof -
  have "cur_weight s + of_int (take_qty fg (row_weight row) rem s) * row_weight row
          \<le> cap_weight fg"
    using take_weight_fits [OF assms] by (simp add: available_weight_def)
  then show ?thesis by (simp add: add_line_def)
qed

lemma pack_row_no_error: "pack_row today zn fg row remaining s \<noteq> Some (Inl e)"
proof
  assume "pack_row today zn fg row remaining s = Some (Inl e)"
  from pack_row_rule [OF this, of "\<lambda>_ _. True"] assert_holds
  show False by auto
qed


subsection \<open>The invariants of the open bin and of the output\<close>

lemma lines_units_snoc: "lines_units (ls @ [l]) = lines_units ls + qty l"
  by (simp add: lines_units_def)

lemma lines_weight_snoc:
  "lines_weight (ls @ [l]) = lines_weight ls + of_int (qty l) * unit_weight l"
  by (simp add: lines_weight_def)

lemma cap_weight_pos: "0 < cap_weight fg"
  by (simp add: cap_weight_def FRAGILE_WEIGHT_CAP_def PICKLIST_WEIGHT_CAP_def)

lemma cap_units_pos: "0 < cap_units"
  by (simp add: cap_units_def PICKLIST_UNIT_CAP_def)

lemma open_bin_ok_empty:
  "items s = [] \<Longrightarrow> cur_units s = 0 \<Longrightarrow> cur_weight s = 0 \<Longrightarrow> orders s = {} \<Longrightarrow> bins s = {}
     \<Longrightarrow> open_bin_ok fg s"
  using cap_weight_pos [of fg] cap_units_pos by (simp add: open_bin_ok_def lines_units_def lines_weight_def)

lemma flush_open_bin_ok: "open_bin_ok fg s \<Longrightarrow> open_bin_ok fg (flush today zn fg s)"
  by (cases "items s = []") (simp_all add: flush_def Let_def open_bin_ok_empty)

lemma weight_cap_flushed_row:
  "picklist_type r = (if fg then ''fragile'' else ''normal'') \<Longrightarrow> weight_cap r = cap_weight fg"
  by (simp add: weight_cap_def cap_weight_def)

lemma flush_emitted_ok:
  assumes "open_bin_ok fg s" and "emitted_ok s"
  shows "emitted_ok (flush today zn fg s)"
proof (cases "items s = []")
  case True
  with assms show ?thesis by (simp add: flush_def)
next
  case False
  let ?f = "today (total_picklists s + 1) @ ''_ZONE_'' @ zn @ ''_PL'' @ str_int (pl_no s + 1) @ ''.csv''"
  let ?r = "\<lparr> picklist_file = ?f, zone = zn, picklist_no = pl_no s + 1,
                   picklist_type = (if fg then ''fragile'' else ''normal''),
                   total_units = cur_units s,
                   total_weight = cur_weight s,
                   distinct_orders = card (orders s),
                   distinct_bins = card (bins s) \<rparr>"
  have su: "summary (flush today zn fg s) = summary s @ [?r]"
    and wr: "written (flush today zn fg s) = written s @ [(?f, items s)]"
    using False by (simp_all add: flush_def Let_def)
  have m: "row_matches ?r (?f, items s)"
    using assms(1) by (simp add: row_matches_def open_bin_ok_def)
  have c: "row_within_caps ?r"
    using assms(1) weight_cap_flushed_row [of ?r fg]
    by (simp add: row_within_caps_def open_bin_ok_def cap_units_def)
  have n: "file_nonempty (?f, items s)"
    using assms(1) False by (simp add: file_nonempty_def open_bin_ok_def)
  from assms(2) have "list_all2 row_matches (summary s) (written s)"
    "list_all row_within_caps (summary s)" "list_all file_nonempty (written s)"
    by (simp_all add: emitted_ok_def)
  with m c n show ?thesis
    unfolding emitted_ok_def su wr by (simp add: list_all2_appendI)
qed

lemma add_line_open_bin_ok:
  assumes ok: "open_bin_ok fg s"
    and au: "0 < available_units s" and aw: "0 < available_weight fg s"
    and tk: "0 < take_qty fg (row_weight row) rem s"
  shows "open_bin_ok fg (add_line row (take_qty fg (row_weight row) rem s) s)"
proof -
  let ?t = "take_qty fg (row_weight row) rem s"
  have "?t \<le> available_units s"
    by (simp add: take_qty_def)
  then have u: "cur_units s + ?t \<le> cap_units"
    by (simp add: available_units_def)
  have w: "cur_weight s + of_int ?t * row_weight row \<le> cap_weight fg"
    using take_weight_fits [OF aw tk] by (simp add: available_weight_def)
  show ?thesis
    using ok u w tk
    by (simp add: open_bin_ok_def add_line_def lines_units_snoc lines_weight_snoc)
qed

lemma add_line_emitted_ok: "emitted_ok (add_line row t s) = emitted_ok s"
  by (simp add: emitted_ok_def add_line_def)

lemma pack_row_ok:
  assumes run: "pack_row today zn fg row remaining s = Some (Inr s')"
    and "open_bin_ok fg s" and "emitted_ok s"
  shows "open_bin_ok fg s' \<and> emitted_ok s'"
proof -
  from pack_row_rule [OF run, of "\<lambda>_ s. open_bin_ok fg s \<and> emitted_ok s"] assms(2,3)
  show ?thesis
    by (auto simp: flush_open_bin_ok flush_emitted_ok add_line_open_bin_ok add_line_emitted_ok)
qed


lemma pack_rows_no_error: "pack_rows today zn fg rows s \<noteq> Some (Inl e)"
  by (induction rows arbitrary: s)
    (auto simp: pack_row_no_error split: option.splits sum.splits)

lemma pack_rows_ok:
  "pack_rows today zn fg rows s = Some (Inr s') \<Longrightarrow> open_bin_ok fg s \<Longrightarrow> emitted_ok s
     \<Longrightarrow> open_bin_ok fg s' \<and> emitted_ok s'"
proof (induction rows arbitrary: s)
  case Nil
  then show ?case by simp
next
  case (Cons row rows)
  from Cons.prems(1) obtain s1 where
    r1: "pack_row today zn fg row (row_qty row) s = Some (Inr s1)"
    and r2: "pack_rows today zn fg rows s1 = Some (Inr s')"
    by (auto split: option.splits sum.splits)
  from pack_row_ok [OF r1 Cons.prems(2,3)] Cons.IH [OF r2] show ?case by simp
qed

lemma open_group_ok: "open_bin_ok fg (open_group s)"
  by (simp add: open_group_def open_bin_ok_empty)

lemma open_group_emitted_ok: "emitted_ok (open_group s) = emitted_ok s"
  by (simp add: emitted_ok_def open_group_def)

lemma process_zone_no_error: "process_zone today g zn fg s \<noteq> Some (Inl e)"
  by (auto simp: process_zone_def pack_rows_no_error split: option.splits sum.splits)

lemma process_zone_ok:
  assumes "process_zone today g zn fg s = Some (Inr s')" and "emitted_ok s"
  shows "emitted_ok s'"
proof -
  from assms(1) obtain s1 where
    r: "pack_rows today zn fg g (open_group s) = Some (Inr s1)"
    and s': "s' = flush today zn fg s1"
    by (auto simp: process_zone_def split: option.splits sum.splits)
  from pack_rows_ok [OF r open_group_ok] assms(2)
  have "open_bin_ok fg s1 \<and> emitted_ok s1"
    by (simp add: open_group_emitted_ok)
  then show ?thesis
    unfolding s' by (simp add: flush_emitted_ok)
qed

lemma process_groups_no_error: "process_groups today fg gs s \<noteq> Some (Inl e)"
  by (induction gs arbitrary: s)
    (auto simp: process_zone_no_error split: option.splits sum.splits)

lemma process_groups_ok:
  "process_groups today fg gs s = Some (Inr s') \<Longrightarrow> emitted_ok s \<Longrightarrow> emitted_ok s'"
proof (induction gs arbitrary: s)
  case Nil
  then show ?case by simp
next
  case (Cons g gs)
  obtain zn rows where g: "g = (zn, rows)" by (cases g)
  from Cons.prems(1) obtain s1 where
    r1: "process_zone today rows zn fg s = Some (Inr s1)"
    and r2: "process_groups today fg gs s1 = Some (Inr s')"
    unfolding g by (auto split: option.splits sum.splits)
  from process_zone_ok [OF r1 Cons.prems(2)] Cons.IH [OF r2] show ?case by simp
qed

lemma generate_picklists_no_error: "generate_picklists today df \<noteq> Some (Inl e)"
  by (auto simp: generate_picklists_def Let_def process_groups_no_error
      split: option.splits sum.splits)

lemma initial_emitted_ok: "emitted_ok initial_state"
  by (simp add: emitted_ok_def initial_state_def)

lemma generate_picklists_ok:
  assumes "generate_picklists today df = Some (Inr out)"
  shows "emitted_ok out"
proof -
  let ?df = "sort_values df"
  from assms obtain s1 where
    r1: "process_groups today False (groupby_zone (filter (\<lambda>r. \<not> row_fragile r) ?df))
           initial_state = Some (Inr s1)"
    and r2: "process_groups today True (groupby_zone (filter (\<lambda>r. row_fragile r) ?df)) s1
           = Some (Inr out)"
    by (auto simp: generate_picklists_def Let_def split: option.splits sum.splits)
  from process_groups_ok [OF r1 initial_emitted_ok] process_groups_ok [OF r2]
  show ?thesis by simp
qed

subsection \<open>A row of quantity zero\<close>

text \<open>
  C9. For a row whose quantity is 0 the \<^verbatim>\<open>while\<close> loop is left at once with the state it was
  entered with: no line is appended, the open bin (\<^verbatim>\<open>cur_units\<close>, \<^verbatim>\<open>cur_weight\<close>,
  \<^verbatim>\<open>items\<close>, \<^verbatim>\<open>orders\<close>, \<^verbatim>\<open>bins\<close>) is unchanged, and there is no flush (the summary, the
  counters and the files are unchanged). The \<^verbatim>\<open>for\<close> loop goes on as if the row were absent.
\<close>

theorem zero_quantity_noop:
  assumes "row_qty row = 0"
  shows "pack_row today zn fragile_group row (row_qty row) s = Some (Inr s)
         \<and> pack_rows today zn fragile_group (row # rows) s
             = pack_rows today zn fragile_group rows s"
proof -
  have "pack_row today zn fragile_group row 0 s = Some (Inr s)"
    by (subst pack_row.simps) simp
  with assms show ?thesis by simp
qed

theorem zero_quantity_noop_witness:
  "row_qty (sample_row ''o5'' 0 ''A'' (1 / 10) False) = 0
   \<and> pack_row first_of_may ''A'' False (sample_row ''o5'' 0 ''A'' (1 / 10) False)
        (row_qty (sample_row ''o5'' 0 ''A'' (1 / 10) False)) initial_state
      = Some (Inr initial_state)"
proof -
  have h: "row_qty (sample_row ''o5'' 0 ''A'' (1 / 10) False) = 0"
    by (simp add: sample_row_def)
  show ?thesis
    using h zero_quantity_noop [OF h, of first_of_may "''A''" False initial_state "[]"]
    by simp
qed

subsection \<open>Capacity\<close>

text \<open>
  C1. Every summary row of a run that completes has \<^verbatim>\<open>total_units\<close> at most
  \<^verbatim>\<open>PICKLIST_UNIT_CAP\<close> (2000) and \<^verbatim>\<open>total_weight\<close> at most the weight cap of its type
  (50 kg for a fragile picklist, 200 kg otherwise) plus the tolerance \<open>10\<^sup>-\<^sup>6\<close>.
\<close>

theorem capacity_invariant:
  assumes "generate_picklists today df = Some (Inr out)" and "r \<in> set (summary out)"
  shows "total_units r \<le> PICKLIST_UNIT_CAP
         \<and> total_weight r \<le> weight_cap r + 1 / 1000000
         \<and> PICKLIST_UNIT_CAP = 2000
         \<and> weight_cap r = (if picklist_type r = ''fragile'' then 50 else 200)"
proof -
  from generate_picklists_ok [OF assms(1)] have "list_all row_within_caps (summary out)"
    by (simp add: emitted_ok_def)
  with assms(2) have "row_within_caps r"
    by (simp add: list_all_iff)
  then show ?thesis
    by (simp add: row_within_caps_def weight_cap_def PICKLIST_UNIT_CAP_def
        FRAGILE_WEIGHT_CAP_def PICKLIST_WEIGHT_CAP_def)
qed

theorem capacity_invariant_witness:
  "generate_picklists first_of_may sample_df = Some (Inr sample_out)
   \<and> sample_summary ! 2 \<in> set (summary sample_out)
   \<and> total_units (sample_summary ! 2) \<le> PICKLIST_UNIT_CAP
   \<and> total_weight (sample_summary ! 2) \<le> weight_cap (sample_summary ! 2) + 1 / 1000000"
proof -
  have h: "sample_summary ! 2 \<in> set (summary sample_out)"
    by (simp add: sample_out_def sample_summary_def)
  show ?thesis
    using sample_run h capacity_invariant [OF sample_run h] by simp
qed

subsection \<open>Non-emptiness\<close>

text \<open>
  C7. A flush of an open bin without lines changes nothing: no file is written and no
  summary row is appended. Hence in a run that completes there are as many summary rows as
  files, and every file written has at least one line, each line with a positive \<^verbatim>\<open>qty\<close>.
\<close>

theorem emitted_picklists_nonempty:
  "(items s = [] \<longrightarrow> flush today zn fragile_group s = s)
   \<and> (generate_picklists today df = Some (Inr out) \<longrightarrow>
        length (summary out) = length (written out)
        \<and> (\<forall>f \<in> set (written out). snd f \<noteq> [] \<and> (\<forall>l \<in> set (snd f). 0 < qty l)))"
proof (intro conjI impI)
  assume "items s = []"
  then show "flush today zn fragile_group s = s"
    by (simp add: flush_def)
next
  assume run: "generate_picklists today df = Some (Inr out)"
  from generate_picklists_ok [OF run]
  show "length (summary out) = length (written out)"
    by (auto simp: emitted_ok_def dest: list_all2_lengthD)
  from generate_picklists_ok [OF run] have "list_all file_nonempty (written out)"
    by (simp add: emitted_ok_def)
  then show "\<forall>f \<in> set (written out). snd f \<noteq> [] \<and> (\<forall>l \<in> set (snd f). 0 < qty l)"
    by (simp add: list_all_iff file_nonempty_def)
qed

theorem emitted_picklists_nonempty_witness:
  "items initial_state = []
   \<and> flush first_of_may ''A'' False initial_state = initial_state
   \<and> generate_picklists first_of_may sample_df = Some (Inr sample_out)
   \<and> length (summary sample_out) = length (written sample_out)
   \<and> sample_written ! 1 \<in> set (written sample_out)
   \<and> snd (sample_written ! 1) \<noteq> []
   \<and> sample_line ''o1'' 500 (1 / 10) False \<in> set (snd (sample_written ! 1))
   \<and> 0 < qty (sample_line ''o1'' 500 (1 / 10) False)"
proof -
  have h: "items initial_state = []"
    by (simp add: initial_state_def)
  have f: "sample_written ! 1 \<in> set (written sample_out)"
    by (simp add: sample_out_def sample_written_def)
  have l: "sample_line ''o1'' 500 (1 / 10) False \<in> set (snd (sample_written ! 1))"
    by (simp add: sample_written_def)
  from h sample_run
    emitted_picklists_nonempty [of initial_state first_of_may "''A''" False sample_df
      sample_out]
  have "flush first_of_may ''A'' False initial_state = initial_state"
    and "length (summary sample_out) = length (written sample_out)"
    and "\<forall>f \<in> set (written sample_out). snd f \<noteq> [] \<and> (\<forall>l \<in> set (snd f). 0 < qty l)"
    by simp_all
  with h f l sample_run show ?thesis
    by blast
qed

subsection \<open>Summary rows and picklist files\<close>

text \<open>
  C10. In a run that completes, the \<open>i\<close>-th summary row and the \<open>i\<close>-th file written come
  from the same flush, and the row describes the file: it carries the file's name,
  \<^verbatim>\<open>total_units\<close> is the sum of \<^verbatim>\<open>qty\<close> over the file's lines, \<^verbatim>\<open>total_weight\<close> the sum of
  \<^verbatim>\<open>qty * unit_weight\<close>, \<^verbatim>\<open>distinct_orders\<close> the number of distinct \<^verbatim>\<open>order_id\<close> values and
  \<^verbatim>\<open>distinct_bins\<close> the number of distinct \<^verbatim>\<open>bin\<close> values among them.
\<close>

theorem summary_matches_picklist:
  assumes "generate_picklists today df = Some (Inr out)" and "i < length (summary out)"
  shows "i < length (written out)
         \<and> picklist_file (summary out ! i) = fst (written out ! i)
         \<and> total_units (summary out ! i) = sum_list (map qty (snd (written out ! i)))
         \<and> total_weight (summary out ! i)
             = sum_list (map (\<lambda>l. of_int (qty l) * unit_weight l) (snd (written out ! i)))
         \<and> distinct_orders (summary out ! i) = card (order_id ` set (snd (written out ! i)))
         \<and> distinct_bins (summary out ! i) = card (bin ` set (snd (written out ! i)))"
proof -
  from generate_picklists_ok [OF assms(1)]
  have m: "list_all2 row_matches (summary out) (written out)"
    by (simp add: emitted_ok_def)
  then have len: "length (summary out) = length (written out)"
    by (rule list_all2_lengthD)
  from m assms(2) have "row_matches (summary out ! i) (written out ! i)"
    by (rule list_all2_nthD)
  with len assms(2) show ?thesis
    by (simp add: row_matches_def lines_units_def lines_weight_def)
qed

theorem summary_matches_picklist_witness:
  "generate_picklists first_of_may sample_df = Some (Inr sample_out)
   \<and> 1 < length (summary sample_out)
   \<and> total_units (summary sample_out ! 1) = sum_list (map qty (snd (written sample_out ! 1)))
   \<and> distinct_orders (summary sample_out ! 1)
       = card (order_id ` set (snd (written sample_out ! 1)))
   \<and> distinct_orders (summary sample_out ! 1) = 3"
proof -
  have h: "1 < length (summary sample_out)"
    by (simp add: sample_out_def sample_summary_def)
  have d: "distinct_orders (summary sample_out ! 1) = 3"
    by (simp add: sample_out_def sample_summary_def)
  show ?thesis
    using sample_run h d summary_matches_picklist [OF sample_run h] by simp
qed

subsection \<open>Conservation of quantity\<close>

lemma all_lines_flush: "all_lines (flush today zn fg s) = all_lines s"
  by (simp add: all_lines_def flush_def Let_def)

lemma all_lines_add_line:
  "all_lines (add_line row t s)
     = all_lines s @ [\<lparr> sku = row_sku row, order_id = row_order row, store = row_store row,
          bin = row_bin row, bin_rank = row_binrank row, qty = t,
          unit_weight = row_weight row, fragile = row_fragile row \<rparr>]"
  by (simp add: all_lines_def add_line_def)

lemma take_qty_le: "take_qty fg w rem s \<le> rem"
  by (simp add: take_qty_def)

lemma pack_row_lines:
  assumes run: "pack_row today zn fg row q s = Some (Inr s')" and q: "0 \<le> q"
  shows "\<exists>new. all_lines s' = all_lines s @ new \<and> list_all (derived_from row) new
           \<and> lines_units new = q"
proof -
  define I where "I = (\<lambda>rem st. 0 \<le> rem \<and> (\<exists>new. all_lines st = all_lines s @ new
      \<and> list_all (derived_from row) new \<and> lines_units new + rem = q))"
  have init: "I q s"
    using q by (simp add: I_def lines_units_def)
  have fl: "I rem (flush today zn fg st)" if "I rem st" for rem st
    using that by (simp add: I_def all_lines_flush)
  have ad: "I (rem - take_qty fg (row_weight row) rem st)
              (add_line row (take_qty fg (row_weight row) rem st) st)"
    if "I rem st" for rem st
  proof -
    let ?t = "take_qty fg (row_weight row) rem st"
    let ?l = "\<lparr> sku = row_sku row, order_id = row_order row, store = row_store row,
          bin = row_bin row, bin_rank = row_binrank row, qty = ?t,
          unit_weight = row_weight row, fragile = row_fragile row \<rparr>"
    from that obtain new where n: "0 \<le> rem" "all_lines st = all_lines s @ new"
      "list_all (derived_from row) new" "lines_units new + rem = q"
      by (auto simp: I_def)
    have "all_lines (add_line row ?t st) = all_lines s @ (new @ [?l])"
      by (simp add: all_lines_add_line n(2))
    moreover have "list_all (derived_from row) (new @ [?l])"
      using n(3) by (simp add: derived_from_def)
    moreover have "lines_units (new @ [?l]) + (rem - ?t) = q"
      using n(4) by (simp add: lines_units_def)
    moreover have "0 \<le> rem - ?t"
      using take_qty_le [of fg "row_weight row" rem st] by simp
    ultimately show ?thesis
      unfolding I_def by blast
  qed
  from pack_row_rule [OF run, of I, OF init fl ad]
  obtain rem' where "rem' \<le> 0" "I rem' s'"
    by auto
  then show ?thesis
    by (auto simp: I_def)
qed

subsection \<open>An item heavier than the cap of its group\<close>

lemma cur_weight_flush_nonneg: "0 \<le> cur_weight s \<Longrightarrow> 0 \<le> cur_weight (flush today zn fg s)"
  by (simp add: flush_def Let_def)

lemma take_qty_heavy:
  assumes aw: "0 < available_weight fg s" and w: "cap_weight fg < w" and c: "0 \<le> cur_weight s"
  shows "take_qty fg w rem s \<le> 0"
proof -
  have wpos: "0 < w"
    using cap_weight_pos [of fg] w by simp
  have "available_weight fg s < w"
    using w c by (simp add: available_weight_def)
  with aw wpos have "0 \<le> available_weight fg s / w" "available_weight fg s / w < 1"
    by simp_all
  then have "py_int (available_weight fg s / w) = 0"
    by (simp add: py_int_nonneg floor_eq_iff)
  with wpos show ?thesis
    by (simp add: take_qty_def max_by_weight_def)
qed

lemma pack_row_diverges:
  assumes "0 < remaining" and "cap_weight fg < row_weight row" and "0 \<le> cur_weight s"
  shows "pack_row today zn fg row remaining s = None"
proof (rule ccontr)
  assume "pack_row today zn fg row remaining s \<noteq> None"
  then obtain res where run: "pack_row today zn fg row remaining s = Some res"
    by auto
  define P where "P = (\<lambda>(t :: int \<Rightarrow> string) (z :: string) f (r :: item_line) (rem :: int)
       (st :: pack_state) (res :: pack_error + pack_state).
     \<not> (0 < rem \<and> cap_weight f < row_weight r \<and> 0 \<le> cur_weight st))"
  have "P today zn fg row remaining s res"
  proof (rule pack_row.raw_induct[where P = P, OF _ run], goal_cases)
    case (1 pr t z f r rem st res)
    note IH = 1(1) and eq = 1(2)
    show ?case
      unfolding P_def
    proof
      assume a: "0 < rem \<and> cap_weight f < row_weight r \<and> 0 \<le> cur_weight st"
      have "available_units st \<le> 0 \<or> available_weight f st \<le> 0
              \<or> take_qty f (row_weight r) rem st \<le> 0"
        using take_qty_heavy [of f st "row_weight r" rem] a by linarith
      with a eq have "pr t z f r rem (flush t z f st) = Some res"
        by (auto simp: Let_def split: if_splits)
      from IH [OF this] a show False
        by (simp add: P_def cur_weight_flush_nonneg)
    qed
  qed
  with assms show False
    by (simp add: P_def)
qed

lemma pack_row_cur_weight_nonneg:
  assumes run: "pack_row today zn fg row remaining s = Some (Inr s')"
    and "0 \<le> cur_weight s" and w: "0 \<le> row_weight row"
  shows "0 \<le> cur_weight s'"
proof -
  have ad: "0 \<le> cur_weight (add_line row t st)" if "0 \<le> cur_weight st" "0 < t" for t st
    using that w by (simp add: add_line_def)
  from pack_row_rule [OF run, of "\<lambda>_ st. 0 \<le> cur_weight st"] assms(2)
  show ?thesis
    by (auto simp: cur_weight_flush_nonneg ad)
qed

lemma pack_rows_diverges:
  "r \<in> set rows \<Longrightarrow> 0 < row_qty r \<Longrightarrow> cap_weight fg < row_weight r
     \<Longrightarrow> \<forall>x \<in> set rows. 0 \<le> row_weight x \<Longrightarrow> 0 \<le> cur_weight s
     \<Longrightarrow> pack_rows today zn fg rows s = None"
proof (induction rows arbitrary: s)
  case Nil
  then show ?case by simp
next
  case (Cons row rows)
  show ?case
  proof (cases "pack_row today zn fg row (row_qty row) s")
    case None
    then show ?thesis by simp
  next
    case (Some res)
    show ?thesis
    proof (cases res)
      case (Inl e)
      with Some pack_row_no_error show ?thesis by blast
    next
      case (Inr s1)
      have "r \<noteq> row"
        using Some pack_row_diverges [of "row_qty r" fg r s today zn] Cons.prems by auto
      with Cons.prems(1) have mem: "r \<in> set rows" by simp
      have "0 \<le> cur_weight s1"
        using pack_row_cur_weight_nonneg [of today zn fg row "row_qty row" s s1]
          Some Inr Cons.prems(4,5) by simp
      with Cons.IH [OF mem Cons.prems(2,3)] Cons.prems(4) Some Inr show ?thesis
        by simp
    qed
  qed
qed

lemma process_zone_diverges:
  assumes "r \<in> set g" and "0 < row_qty r" and "cap_weight fg < row_weight r"
    and "\<forall>x \<in> set g. 0 \<le> row_weight x"
  shows "process_zone today g zn fg s = None"
proof -
  have "0 \<le> cur_weight (open_group s)"
    by (simp add: open_group_def)
  from pack_rows_diverges [OF assms this] show ?thesis
    by (simp add: process_zone_def)
qed

lemma process_groups_diverges:
  "(zn, g) \<in> set gs \<Longrightarrow> r \<in> set g \<Longrightarrow> 0 < row_qty r \<Longrightarrow> cap_weight fg < row_weight r
     \<Longrightarrow> \<forall>x \<in> set g. 0 \<le> row_weight x
     \<Longrightarrow> process_groups today fg gs s = None"
proof (induction gs arbitrary: s)
  case Nil
  then show ?case by simp
next
  case (Cons h gs)
  obtain z rows where h: "h = (z, rows)" by (cases h)
  show ?case
  proof (cases "process_zone today rows z fg s")
    case None
    then show ?thesis by (simp add: h)
  next
    case (Some res)
    show ?thesis
    proof (cases res)
      case (Inl e)
      with Some process_zone_no_error show ?thesis by blast
    next
      case (Inr s1)
      have "(zn, g) \<noteq> (z, rows)"
        using Some process_zone_diverges [OF Cons.prems(2,3,4,5), of today zn s] by auto
      with Cons.prems(1) h have "(zn, g) \<in> set gs" by auto
      from Cons.IH [OF this Cons.prems(2,3,4,5)] Some Inr show ?thesis
        by (simp add: h)
    qed
  qed
qed

lemma groupby_zone_member:
  "r \<in> set df \<Longrightarrow> (row_zone r, filter (\<lambda>x. row_zone x = row_zone r) df) \<in> set (groupby_zone df)"
  by (auto simp: groupby_zone_def)

lemma set_sort_values: "set (sort_values df) = set df"
  by (simp add: sort_values_def)

lemma generate_picklists_diverges:
  assumes r: "r \<in> set df" and q: "0 < row_qty r"
    and w: "cap_weight (row_fragile r) < row_weight r"
    and nn: "\<forall>x \<in> set df. 0 \<le> row_weight x"
  shows "generate_picklists today df = None"
proof -
  let ?df = "sort_values df"
  let ?part = "filter (\<lambda>x. row_fragile x = row_fragile r) ?df"
  let ?g = "filter (\<lambda>x. row_zone x = row_zone r) ?part"
  have "r \<in> set ?part"
    using r by (simp add: set_sort_values)
  then have g: "(row_zone r, ?g) \<in> set (groupby_zone ?part)"
    by (rule groupby_zone_member)
  have rg: "r \<in> set ?g"
    using r by (simp add: set_sort_values)
  have gnn: "\<forall>x \<in> set ?g. 0 \<le> row_weight x"
    using nn by (simp add: set_sort_values)
  have none: "process_groups today (row_fragile r) (groupby_zone ?part) s = None" for s
    by (rule process_groups_diverges [OF g rg q w gnn])
  show ?thesis
  proof (cases "row_fragile r")
    case True
    with none have "process_groups today True (groupby_zone (filter row_fragile ?df)) s = None"
      for s by simp
    then show ?thesis
      by (simp add: generate_picklists_def Let_def process_groups_no_error
          split: option.splits sum.splits)
  next
    case False
    with none have "process_groups today False
        (groupby_zone (filter (\<lambda>x. \<not> row_fragile x) ?df)) s = None" for s
      by simp
    then show ?thesis
      by (simp add: generate_picklists_def Let_def)
  qed
qed

text \<open>
  C2. The packer has no check of a row's unit weight against the cap and no
  "unpackable item" error. On the one fragile line of 60 kg (cap 50 kg) no unit fits even an
  empty bin, every iteration of the \<^verbatim>\<open>while\<close> loop takes the flush-and-retry branch, and
  \<^verbatim>\<open>process_zone\<close> never returns: it neither raises nor completes.
\<close>

theorem heavy_item_never_returns:
  "process_zone first_of_may [heavy_row] ''A'' True initial_state = None
   \<and> 0 < row_qty heavy_row \<and> cap_weight (row_fragile heavy_row) < row_weight heavy_row"
proof -
  have h: "0 < row_qty heavy_row" "cap_weight True < row_weight heavy_row"
    "row_fragile heavy_row"
    by (simp_all add: heavy_row_def sample_row_def cap_weight_def FRAGILE_WEIGHT_CAP_def)
  have "process_zone first_of_may [heavy_row] ''A'' True initial_state = None"
    by (rule process_zone_diverges [of heavy_row]) (use h in \<open>simp_all add: heavy_row_def sample_row_def\<close>)
  with h show ?thesis by simp
qed

text \<open>
  C3. \<^verbatim>\<open>generate_picklists\<close> does not return on every input: when the frame holds the
  60 kg fragile line after the sample rows, the run packs what sorts before it and then stays
  in the \<^verbatim>\<open>while\<close> loop of that line for ever, without an error.
\<close>

theorem generate_picklists_hangs:
  "generate_picklists first_of_may (sample_df @ [heavy_row]) = None"
proof (rule generate_picklists_diverges [of heavy_row])
  show "heavy_row \<in> set (sample_df @ [heavy_row])" by simp
  show "0 < row_qty heavy_row" by (simp add: heavy_row_def sample_row_def)
  show "cap_weight (row_fragile heavy_row) < row_weight heavy_row"
    by (simp add: heavy_row_def sample_row_def cap_weight_def FRAGILE_WEIGHT_CAP_def)
  show "\<forall>x \<in> set (sample_df @ [heavy_row]). 0 \<le> row_weight x"
    by (simp add: sample_df_def heavy_row_def sample_row_def)
qed

subsection \<open>Termination when every item fits an empty bin\<close>

lemma fresh_bin_takes:
  assumes ok: "open_bin_ok fg s" and e: "items s = []" and r: "0 < rem"
    and w: "0 < w \<longrightarrow> w \<le> cap_weight fg"
  shows "0 < available_units s \<and> 0 < available_weight fg s \<and> 0 < take_qty fg w rem s"
proof -
  from ok e have c: "cur_units s = 0" "cur_weight s = 0"
    by (simp_all add: open_bin_ok_def lines_units_def lines_weight_def)
  have au: "0 < available_units s"
    using c cap_units_pos by (simp add: available_units_def)
  have aw: "available_weight fg s = cap_weight fg"
    using c by (simp add: available_weight_def)
  have "0 < max_by_weight fg w rem s"
  proof (cases "0 < w")
    case True
    with w have "1 \<le> cap_weight fg / w"
      by (simp add: pos_le_divide_eq)
    then have "1 \<le> \<lfloor>cap_weight fg / w\<rfloor>"
      by (simp add: le_floor_iff)
    moreover have "0 \<le> cap_weight fg / w"
      using True cap_weight_pos [of fg] by simp
    ultimately show ?thesis
      using True by (simp add: max_by_weight_def aw py_int_nonneg)
  next
    case False
    with r show ?thesis by (simp add: max_by_weight_def)
  qed
  with au r aw cap_weight_pos [of fg] show ?thesis
    by (simp add: take_qty_def)
qed

lemma flush_items: "items (flush today zn fg s) = []"
  by (simp add: flush_def Let_def)

lemma pack_row_terminates:
  assumes "open_bin_ok fg s" and "0 < row_weight row \<longrightarrow> row_weight row \<le> cap_weight fg"
  shows "\<exists>s'. pack_row today zn fg row remaining s = Some (Inr s')"
  using assms(1)
proof (induction "nat remaining" arbitrary: remaining s rule: less_induct)
  case less
  show ?case
  proof (cases "0 < remaining")
    case False
    then show ?thesis
      by (subst pack_row.simps) simp
  next
    case pos: True
    let ?w = "row_weight row"
    let ?retry = "available_units s \<le> 0 \<or> available_weight fg s \<le> 0
                    \<or> take_qty fg ?w remaining s \<le> 0"
    define s1 where "s1 = (if ?retry then flush today zn fg s else s)"
    have same: "pack_row today zn fg row remaining s = pack_row today zn fg row remaining s1"
    proof (cases ?retry)
      case True
      then show ?thesis
        unfolding s1_def using pos
        by (subst pack_row.simps) (auto simp: Let_def)
    next
      case False
      then show ?thesis by (simp add: s1_def)
    qed
    have ok1: "open_bin_ok fg s1"
      using less.prems by (simp add: s1_def flush_open_bin_ok)
    have go: "0 < available_units s1 \<and> 0 < available_weight fg s1
                \<and> 0 < take_qty fg ?w remaining s1"
    proof (cases ?retry)
      case True
      then have "s1 = flush today zn fg s" by (simp add: s1_def)
      with fresh_bin_takes [OF ok1 _ pos assms(2)] show ?thesis
        by (simp add: flush_items)
    next
      case False
      then show ?thesis by (simp add: s1_def not_le)
    qed
    let ?t = "take_qty fg ?w remaining s1"
    have step: "pack_row today zn fg row remaining s1
                  = pack_row today zn fg row (remaining - ?t) (add_line row ?t s1)"
      using pos go assert_holds [of fg s1 row remaining]
      by (subst pack_row.simps) (simp add: Let_def not_le)
    have "open_bin_ok fg (add_line row ?t s1)"
      using ok1 go by (simp add: add_line_open_bin_ok)
    moreover have "nat (remaining - ?t) < nat remaining"
      using pos go by simp
    ultimately have "\<exists>s'. pack_row today zn fg row (remaining - ?t) (add_line row ?t s1)
                           = Some (Inr s')"
      using less.hyps by blast
    with same step show ?thesis by simp
  qed
qed

lemma pack_rows_terminates:
  "open_bin_ok fg s
     \<Longrightarrow> \<forall>r \<in> set rows. 0 < row_qty r \<and> 0 < row_weight r \<longrightarrow> row_weight r \<le> cap_weight fg
     \<Longrightarrow> \<exists>s'. pack_rows today zn fg rows s = Some (Inr s') \<and> open_bin_ok fg s'"
proof (induction rows arbitrary: s)
  case Nil
  then show ?case by simp
next
  case (Cons row rows)
  have "\<exists>s1. pack_row today zn fg row (row_qty row) s = Some (Inr s1)"
  proof (cases "0 < row_qty row")
    case True
    with Cons.prems show ?thesis
      by (intro pack_row_terminates) simp_all
  next
    case False
    then show ?thesis
      by (subst pack_row.simps) simp
  qed
  then obtain s1 where r1: "pack_row today zn fg row (row_qty row) s = Some (Inr s1)"
    by blast
  have ok1: "open_bin_ok fg s1"
    using pack_row_rule [OF r1, of "\<lambda>_ st. open_bin_ok fg st"] Cons.prems(1)
    by (auto simp: flush_open_bin_ok add_line_open_bin_ok)
  from Cons.IH [OF ok1] Cons.prems(2) r1 show ?case
    by simp
qed

lemma process_zone_terminates:
  assumes "\<forall>r \<in> set g. 0 < row_qty r \<and> 0 < row_weight r \<longrightarrow> row_weight r \<le> cap_weight fg"
  shows "\<exists>s'. process_zone today g zn fg s = Some (Inr s')"
proof -
  have "open_bin_ok fg (open_group s)"
    by (rule open_group_ok)
  from pack_rows_terminates [OF this assms, where today = today and zn = zn] show ?thesis
    by (auto simp: process_zone_def)
qed

lemma process_groups_terminates:
  "\<forall>g \<in> set gs. \<forall>r \<in> set (snd g).
       0 < row_qty r \<and> 0 < row_weight r \<longrightarrow> row_weight r \<le> cap_weight fg
     \<Longrightarrow> \<exists>s'. process_groups today fg gs s = Some (Inr s')"
proof (induction gs arbitrary: s)
  case Nil
  then show ?case by simp
next
  case (Cons h gs)
  obtain z rows where h: "h = (z, rows)" by (cases h)
  from Cons.prems h
  have "\<forall>r \<in> set rows. 0 < row_qty r \<and> 0 < row_weight r \<longrightarrow> row_weight r \<le> cap_weight fg"
    by simp
  from process_zone_terminates [OF this] obtain s1 where
    "process_zone today rows z fg s = Some (Inr s1)"
    by blast
  with Cons.IH [of s1] Cons.prems show ?case
    by (simp add: h)
qed

lemma groupby_zone_rows:
  "g \<in> set (groupby_zone df) \<Longrightarrow> r \<in> set (snd g) \<Longrightarrow> r \<in> set df"
  by (auto simp: groupby_zone_def)

lemma generate_picklists_terminates:
  assumes "\<forall>r \<in> set df. 0 < row_qty r \<and> 0 < row_weight r
             \<longrightarrow> row_weight r \<le> cap_weight (row_fragile r)"
  shows "\<exists>out. generate_picklists today df = Some (Inr out)"
proof -
  let ?df = "sort_values df"
  have n: "\<forall>g \<in> set (groupby_zone (filter (\<lambda>r. \<not> row_fragile r) ?df)). \<forall>r \<in> set (snd g).
       0 < row_qty r \<and> 0 < row_weight r \<longrightarrow> row_weight r \<le> cap_weight False"
    using assms by (auto dest!: groupby_zone_rows simp: set_sort_values)
  have f: "\<forall>g \<in> set (groupby_zone (filter (\<lambda>r. row_fragile r) ?df)). \<forall>r \<in> set (snd g).
       0 < row_qty r \<and> 0 < row_weight r \<longrightarrow> row_weight r \<le> cap_weight True"
    using assms by (auto dest!: groupby_zone_rows simp: set_sort_values)
  from process_groups_terminates [OF n] obtain s1 where
    "process_groups today False (groupby_zone (filter (\<lambda>r. \<not> row_fragile r) ?df))
       initial_state = Some (Inr s1)"
    by blast
  with process_groups_terminates [OF f, where today = today and s = s1] show ?thesis
    by (simp add: generate_picklists_def Let_def)
qed

subsection \<open>Runs at different dates\<close>

lemma same_but_names_fields:
  assumes "without_file_names s = without_file_names t"
  shows "cur_units s = cur_units t" "cur_weight s = cur_weight t" "items s = items t"
    "orders s = orders t" "bins s = bins t" "pl_no s = pl_no t"
    "total_picklists s = total_picklists t"
    "map (\<lambda>r. r\<lparr> picklist_file := [] \<rparr>) (summary s) = map (\<lambda>r. r\<lparr> picklist_file := [] \<rparr>) (summary t)"
    "map (\<lambda>f. ([] :: string, snd f)) (written s) = map (\<lambda>f. ([], snd f)) (written t)"
proof -
  have "cur_units (without_file_names s) = cur_units (without_file_names t)"
    "cur_weight (without_file_names s) = cur_weight (without_file_names t)"
    "items (without_file_names s) = items (without_file_names t)"
    "orders (without_file_names s) = orders (without_file_names t)"
    "bins (without_file_names s) = bins (without_file_names t)"
    "pl_no (without_file_names s) = pl_no (without_file_names t)"
    "total_picklists (without_file_names s) = total_picklists (without_file_names t)"
    "summary (without_file_names s) = summary (without_file_names t)"
    "written (without_file_names s) = written (without_file_names t)"
    using assms by simp_all
  then show "cur_units s = cur_units t" "cur_weight s = cur_weight t" "items s = items t"
    "orders s = orders t" "bins s = bins t" "pl_no s = pl_no t"
    "total_picklists s = total_picklists t"
    "map (\<lambda>r. r\<lparr> picklist_file := [] \<rparr>) (summary s) = map (\<lambda>r. r\<lparr> picklist_file := [] \<rparr>) (summary t)"
    "map (\<lambda>f. ([] :: string, snd f)) (written s) = map (\<lambda>f. ([], snd f)) (written t)"
    by (simp_all add: without_file_names_def)
qed

lemma same_but_names_flush:
  assumes "without_file_names s = without_file_names t"
  shows "without_file_names (flush today1 zn fg s) = without_file_names (flush today2 zn fg t)"
proof (cases "items s = []")
  case True
  with assms same_but_names_fields(3) [OF assms] show ?thesis
    by (simp add: flush_def)
next
  case False
  with same_but_names_fields [OF assms] show ?thesis
    by (simp add: flush_def Let_def without_file_names_def)
qed

lemma same_but_names_add_line:
  assumes "without_file_names s = without_file_names t"
  shows "without_file_names (add_line row k s) = without_file_names (add_line row k t)"
  using same_but_names_fields [OF assms]
  by (simp add: add_line_def without_file_names_def)

lemma same_but_names_open_group:
  assumes "without_file_names s = without_file_names t"
  shows "without_file_names (open_group s) = without_file_names (open_group t)"
  using same_but_names_fields [OF assms]
  by (simp add: open_group_def without_file_names_def)

lemma same_but_names_guards:
  assumes "without_file_names s = without_file_names t"
  shows "available_units s = available_units t"
    "available_weight fg s = available_weight fg t"
    "take_qty fg w rem s = take_qty fg w rem t"
  using same_but_names_fields(1,2) [OF assms]
  by (simp_all add: available_units_def available_weight_def take_qty_def max_by_weight_def)

lemma pack_row_same_but_names:
  assumes run: "pack_row today1 zn fg row remaining s = Some res"
    and rel: "without_file_names s = without_file_names t"
  shows "\<exists>res'. pack_row today2 zn fg row remaining t = Some res'
           \<and> map_sum id without_file_names res' = map_sum id without_file_names res"
proof -
  define P where "P = (\<lambda>(d :: int \<Rightarrow> string) (z :: string) (f :: bool) (r :: item_line)
       (rem :: int) (st :: pack_state) (res :: pack_error + pack_state).
     d = today1 \<longrightarrow> (\<forall>t. without_file_names st = without_file_names t \<longrightarrow>
       (\<exists>res'. pack_row today2 z f r rem t = Some res'
           \<and> map_sum id without_file_names res' = map_sum id without_file_names res)))"
  have "P today1 zn fg row remaining s res"
  proof (rule pack_row.raw_induct[where P = P, OF _ run], goal_cases)
    case (1 pr d z f r rem st res)
    note IH = 1(1) and eq = 1(2)
    show ?case
      unfolding P_def
    proof (intro impI allI)
      fix t
      assume d: "d = today1" and rel: "without_file_names st = without_file_names t"
      note g = same_but_names_guards [OF rel]
      let ?k = "take_qty f (row_weight r) rem st"
      show "\<exists>res'. pack_row today2 z f r rem t = Some res'
           \<and> map_sum id without_file_names res' = map_sum id without_file_names res"
      proof (cases "0 < rem")
        case False
        with eq have "res = Inr st" by simp
        moreover from False have "pack_row today2 z f r rem t = Some (Inr t)"
          by (subst pack_row.simps) simp
        ultimately show ?thesis
          using rel by simp
      next
        case pos: True
        consider (fl) "available_units st \<le> 0 \<or> available_weight f st \<le> 0 \<or> ?k \<le> 0"
          | (bad) "0 < available_units st" "0 < available_weight f st" "0 < ?k"
                  "\<not> cur_weight (add_line r ?k st) \<le> cap_weight f + 1 / 1000000"
          | (ad) "0 < available_units st" "0 < available_weight f st" "0 < ?k"
                  "cur_weight (add_line r ?k st) \<le> cap_weight f + 1 / 1000000"
          by linarith
        then show ?thesis
        proof cases
          case fl
          with pos eq d have "pr today1 z f r rem (flush today1 z f st) = Some res"
            by (auto simp: Let_def split: if_splits)
          from IH [OF this, unfolded P_def] same_but_names_flush [OF rel, of today1 z f today2]
          obtain res' where
            r': "pack_row today2 z f r rem (flush today2 z f t) = Some res'"
            "map_sum id without_file_names res' = map_sum id without_file_names res"
            by blast
          have "pack_row today2 z f r rem t = pack_row today2 z f r rem (flush today2 z f t)"
            using fl pos
            by (subst pack_row.simps) (auto simp: Let_def g)
          with r' show ?thesis by simp
        next
          case bad
          with pos eq d have "res = Inl AssertionError"
            by (auto simp: Let_def split: if_splits)
          with assert_holds [OF bad(2,3)] bad(4) show ?thesis
            by simp
        next
          case ad
          with pos eq d have "pr today1 z f r (rem - ?k) (add_line r ?k st) = Some res"
            by (auto simp: Let_def split: if_splits)
          from IH [OF this, unfolded P_def] same_but_names_add_line [OF rel, of r ?k]
          obtain res' where
            r': "pack_row today2 z f r (rem - ?k) (add_line r ?k t) = Some res'"
            "map_sum id without_file_names res' = map_sum id without_file_names res"
            by blast
          have c: "cur_weight (add_line r ?k t) = cur_weight (add_line r ?k st)"
            using same_but_names_fields(2) [OF rel] by (simp add: add_line_def)
          have "pack_row today2 z f r rem t
                  = pack_row today2 z f r (rem - ?k) (add_line r ?k t)"
            using ad pos c
            by (subst pack_row.simps) (simp add: Let_def not_le g)
          with r' show ?thesis by simp
        qed
      qed
    qed
  qed
  with rel show ?thesis
    by (simp add: P_def)
qed

lemma pack_rows_same_but_names:
  "pack_rows today1 zn fg rows s = Some (Inr s')
     \<Longrightarrow> without_file_names s = without_file_names t
     \<Longrightarrow> \<exists>t'. pack_rows today2 zn fg rows t = Some (Inr t')
               \<and> without_file_names s' = without_file_names t'"
proof (induction rows arbitrary: s t)
  case Nil
  then show ?case by simp
next
  case (Cons row rows)
  from Cons.prems(1) obtain s1 where
    r1: "pack_row today1 zn fg row (row_qty row) s = Some (Inr s1)"
    and r2: "pack_rows today1 zn fg rows s1 = Some (Inr s')"
    by (auto split: option.splits sum.splits)
  from pack_row_same_but_names [OF r1 Cons.prems(2), of today2] obtain res' where
    "pack_row today2 zn fg row (row_qty row) t = Some res'"
    "map_sum id without_file_names res' = Inr (without_file_names s1)"
    by auto
  then obtain t1 where
    q1: "pack_row today2 zn fg row (row_qty row) t = Some (Inr t1)"
    and rel1: "without_file_names s1 = without_file_names t1"
    by (cases res') auto
  from Cons.IH [OF r2 rel1] q1 show ?case
    by simp
qed

lemma process_zone_same_but_names:
  assumes "process_zone today1 g zn fg s = Some (Inr s')"
    and "without_file_names s = without_file_names t"
  shows "\<exists>t'. process_zone today2 g zn fg t = Some (Inr t')
               \<and> without_file_names s' = without_file_names t'"
proof -
  from assms(1) obtain s1 where
    r: "pack_rows today1 zn fg g (open_group s) = Some (Inr s1)"
    and s': "s' = flush today1 zn fg s1"
    by (auto simp: process_zone_def split: option.splits sum.splits)
  from pack_rows_same_but_names [OF r same_but_names_open_group [OF assms(2)], of today2]
  obtain t1 where
    q: "pack_rows today2 zn fg g (open_group t) = Some (Inr t1)"
    and rel1: "without_file_names s1 = without_file_names t1"
    by blast
  from q same_but_names_flush [OF rel1, of today1 zn fg today2] show ?thesis
    by (simp add: process_zone_def s')
qed

lemma process_groups_same_but_names:
  "process_groups today1 fg gs s = Some (Inr s')
     \<Longrightarrow> without_file_names s = without_file_names t
     \<Longrightarrow> \<exists>t'. process_groups today2 fg gs t = Some (Inr t')
               \<and> without_file_names s' = without_file_names t'"
proof (induction gs arbitrary: s t)
  case Nil
  then show ?case by simp
next
  case (Cons h gs)
  obtain z rows where h: "h = (z, rows)" by (cases h)
  from Cons.prems(1) obtain s1 where
    r1: "process_zone today1 rows z fg s = Some (Inr s1)"
    and r2: "process_groups today1 fg gs s1 = Some (Inr s')"
    unfolding h by (auto split: option.splits sum.splits)
  from process_zone_same_but_names [OF r1 Cons.prems(2), of today2] obtain t1 where
    q1: "process_zone today2 rows z fg t = Some (Inr t1)"
    and rel1: "without_file_names s1 = without_file_names t1"
    by blast
  from Cons.IH [OF r2 rel1] q1 show ?case
    by (simp add: h)
qed

lemma generate_picklists_same_but_names:
  assumes "generate_picklists today1 df = Some (Inr out)"
  shows "\<exists>out'. generate_picklists today2 df = Some (Inr out')
           \<and> without_file_names out = without_file_names out'"
proof -
  let ?df = "sort_values df"
  from assms obtain s1 where
    r1: "process_groups today1 False (groupby_zone (filter (\<lambda>r. \<not> row_fragile r) ?df))
           initial_state = Some (Inr s1)"
    and r2: "process_groups today1 True (groupby_zone (filter (\<lambda>r. row_fragile r) ?df)) s1
           = Some (Inr out)"
    by (auto simp: generate_picklists_def Let_def split: option.splits sum.splits)
  from process_groups_same_but_names [OF r1 refl, of today2] obtain t1 where
    q1: "process_groups today2 False (groupby_zone (filter (\<lambda>r. \<not> row_fragile r) ?df))
           initial_state = Some (Inr t1)"
    and rel1: "without_file_names s1 = without_file_names t1"
    by blast
  from process_groups_same_but_names [OF r2 rel1, of today2] q1 show ?thesis
    by (simp add: generate_picklists_def Let_def)
qed

lemma generate_picklists_result:
  assumes "generate_picklists today df = Some res"
  shows "\<exists>out. res = Inr out"
  using assms generate_picklists_no_error [of today df] by (cases res) auto

text \<open>
  C6, as the code has it. The name of a picklist file begins with the date read from the
  clock at the flush, so two runs on the same frame agree on everything but the file names:
  the same picklists with the same lines in the same order, the same sequence numbers and
  the same counters in the summary rows. (With the same dates they agree on the names too,
  the run being a function of the frame and the dates.)
\<close>

theorem runs_agree_but_for_file_names:
  "map_option (map_sum id without_file_names) (generate_picklists today1 df)
     = map_option (map_sum id without_file_names) (generate_picklists today2 df)"
proof (cases "generate_picklists today1 df")
  case None
  have "generate_picklists today2 df = None"
  proof (rule ccontr)
    assume "generate_picklists today2 df \<noteq> None"
    then obtain res where "generate_picklists today2 df = Some res"
      by auto
    then obtain out where "generate_picklists today2 df = Some (Inr out)"
      by (auto dest: generate_picklists_result)
    from generate_picklists_same_but_names [OF this, of today1] None show False
      by simp
  qed
  with None show ?thesis by simp
next
  case (Some res)
  then obtain out where out: "generate_picklists today1 df = Some (Inr out)"
    by (auto dest: generate_picklists_result)
  from generate_picklists_same_but_names [OF this, of today2] out show ?thesis
    by auto
qed

text \<open>
  C6, as stated, fails: the same frame packed on the first and on the second of May gives
  summaries that differ in \<^verbatim>\<open>picklist_file\<close>.
\<close>

theorem picklist_file_depends_on_date:
  "generate_picklists first_of_may sample_df = Some (Inr sample_out)
   \<and> generate_picklists second_of_may sample_df \<noteq> Some (Inr sample_out)"
proof -
  have "map_option (map_sum id (\<lambda>s. map picklist_file (summary s)))
          (generate_picklists second_of_may sample_df)
        = Some (Inr [''2024-05-02_ZONE_A_PL1.csv'', ''2024-05-02_ZONE_A_PL2.csv'',
             ''2024-05-02_ZONE_A_PL1.csv''])"
    by code_simp
  moreover have "map picklist_file (summary sample_out)
        = [''2024-05-01_ZONE_A_PL1.csv'', ''2024-05-01_ZONE_A_PL2.csv'',
           ''2024-05-01_ZONE_A_PL1.csv'']"
    by (simp add: sample_out_def sample_summary_def)
  ultimately have "generate_picklists second_of_may sample_df \<noteq> Some (Inr sample_out)"
    by auto
  with sample_run show ?thesis by simp
qed

subsection \<open>The lines of a run, row by row\<close>

lemma pack_row_cut:
  assumes run: "pack_row today zn fg row (row_qty row) s = Some (Inr s')"
  shows "\<exists>part. all_lines s' = all_lines s @ part \<and> cut_from row part"
proof (cases "0 \<le> row_qty row")
  case True
  from pack_row_lines [OF run True] True show ?thesis
    by (auto simp: cut_from_def)
next
  case False
  with run have "s' = s"
    by (subst (asm) pack_row.simps) simp
  with False show ?thesis
    by (simp add: cut_from_def lines_units_def)
qed

lemma pack_rows_cut:
  "pack_rows today zn fg rows s = Some (Inr s')
     \<Longrightarrow> \<exists>parts. list_all2 cut_from rows parts \<and> all_lines s' = all_lines s @ concat parts"
proof (induction rows arbitrary: s)
  case Nil
  then show ?case by simp
next
  case (Cons row rows)
  from Cons.prems obtain s1 where
    r1: "pack_row today zn fg row (row_qty row) s = Some (Inr s1)"
    and r2: "pack_rows today zn fg rows s1 = Some (Inr s')"
    by (auto split: option.splits sum.splits)
  from pack_row_cut [OF r1] obtain part where
    p: "all_lines s1 = all_lines s @ part" "cut_from row part"
    by blast
  from Cons.IH [OF r2] obtain parts where
    ps: "list_all2 cut_from rows parts" "all_lines s' = all_lines s1 @ concat parts"
    by blast
  have "list_all2 cut_from (row # rows) (part # parts)"
    using p(2) ps(1) by simp
  moreover have "all_lines s' = all_lines s @ concat (part # parts)"
    using p(1) ps(2) by simp
  ultimately show ?case by blast
qed

lemma process_zone_cut:
  assumes run: "process_zone today g zn fg s = Some (Inr s')" and e: "items s = []"
  shows "items s' = []
         \<and> (\<exists>parts. list_all2 cut_from g parts \<and> all_lines s' = all_lines s @ concat parts)"
proof -
  from run obtain s1 where
    r: "pack_rows today zn fg g (open_group s) = Some (Inr s1)"
    and s': "s' = flush today zn fg s1"
    by (auto simp: process_zone_def split: option.splits sum.splits)
  have "all_lines (open_group s) = all_lines s"
    using e by (simp add: all_lines_def open_group_def)
  with pack_rows_cut [OF r] show ?thesis
    by (simp add: s' all_lines_flush flush_items)
qed

lemma process_groups_cut:
  "process_groups today fg gs s = Some (Inr s') \<Longrightarrow> items s = []
     \<Longrightarrow> items s' = []
         \<and> (\<exists>parts. list_all2 cut_from (concat (map snd gs)) parts
               \<and> all_lines s' = all_lines s @ concat parts)"
proof (induction gs arbitrary: s)
  case Nil
  then show ?case by simp
next
  case (Cons h gs)
  obtain z rows where h: "h = (z, rows)" by (cases h)
  from Cons.prems(1) obtain s1 where
    r1: "process_zone today rows z fg s = Some (Inr s1)"
    and r2: "process_groups today fg gs s1 = Some (Inr s')"
    unfolding h by (auto split: option.splits sum.splits)
  from process_zone_cut [OF r1 Cons.prems(2)] obtain p1 where
    e1: "items s1 = []" and p1: "list_all2 cut_from rows p1"
    "all_lines s1 = all_lines s @ concat p1"
    by blast
  from Cons.IH [OF r2 e1] obtain p2 where
    e2: "items s' = []" and p2: "list_all2 cut_from (concat (map snd gs)) p2"
    "all_lines s' = all_lines s1 @ concat p2"
    by blast
  have "list_all2 cut_from (concat (map snd (h # gs))) (p1 @ p2)"
    using p1(1) p2(1) by (simp add: h list_all2_appendI)
  moreover have "all_lines s' = all_lines s @ concat (p1 @ p2)"
    using p1(2) p2(2) by simp
  ultimately show ?case
    using e2 by blast
qed

lemma generate_picklists_cut:
  assumes "generate_picklists today df = Some (Inr out)"
  shows "\<exists>parts. list_all2 cut_from (pack_order df) parts
           \<and> concat (map snd (written out)) = concat parts"
proof -
  let ?df = "sort_values df"
  from assms obtain s1 where
    r1: "process_groups today False (groupby_zone (filter (\<lambda>r. \<not> row_fragile r) ?df))
           initial_state = Some (Inr s1)"
    and r2: "process_groups today True (groupby_zone (filter (\<lambda>r. row_fragile r) ?df)) s1
           = Some (Inr out)"
    by (auto simp: generate_picklists_def Let_def split: option.splits sum.splits)
  have e0: "items initial_state = []" and l0: "all_lines initial_state = []"
    by (simp_all add: initial_state_def all_lines_def)
  from process_groups_cut [OF r1 e0] l0 obtain p1 where
    e1: "items s1 = []"
    and p1: "list_all2 cut_from
               (concat (map snd (groupby_zone (filter (\<lambda>r. \<not> row_fragile r) ?df)))) p1"
    "all_lines s1 = concat p1"
    by auto
  from process_groups_cut [OF r2 e1] obtain p2 where
    e2: "items out = []"
    and p2: "list_all2 cut_from
               (concat (map snd (groupby_zone (filter (\<lambda>r. row_fragile r) ?df)))) p2"
    "all_lines out = all_lines s1 @ concat p2"
    by blast
  have "list_all2 cut_from (pack_order df) (p1 @ p2)"
    unfolding pack_order_def using p1(1) p2(1) by (rule list_all2_appendI)
  moreover have "concat (map snd (written out)) = concat (p1 @ p2)"
    using e2 p1(2) p2(2) by (simp add: all_lines_def)
  ultimately show ?thesis by blast
qed

text \<open>The order of packing holds every row of the frame, as often as the frame does.\<close>

lemma mset_groups:
  "distinct zs \<Longrightarrow>
     mset (concat (map (\<lambda>z. filter (\<lambda>r. row_zone r = z) xs) zs))
       = filter_mset (\<lambda>r. row_zone r \<in> set zs) (mset xs)"
proof (induction zs)
  case Nil
  then show ?case by simp
next
  case (Cons z zs)
  then show ?case
    by (auto simp: multiset_eq_iff)
qed

lemma mset_groupby_zone: "mset (concat (map snd (groupby_zone xs))) = mset xs"
proof -
  have "map snd (groupby_zone xs)
          = map (\<lambda>z. filter (\<lambda>r. row_zone r = z) xs) (sort (remdups (map row_zone xs)))"
    by (simp add: groupby_zone_def comp_def)
  moreover have "distinct (sort (remdups (map row_zone xs)))"
    by simp
  ultimately have "mset (concat (map snd (groupby_zone xs)))
          = filter_mset (\<lambda>r. row_zone r \<in> set (sort (remdups (map row_zone xs)))) (mset xs)"
    by (simp only: mset_groups)
  also have "\<dots> = mset xs"
    by (auto simp: multiset_eq_iff count_eq_zero_iff intro!: filter_mset_True)
  finally show ?thesis .
qed

lemma mset_sort_values: "mset (sort_values df) = mset df"
  by (simp add: sort_values_def)

lemma mset_pack_order: "mset (pack_order df) = mset df"
proof -
  have "mset (pack_order df)
          = filter_mset (\<lambda>r. \<not> row_fragile r) (mset (sort_values df))
            + filter_mset (\<lambda>r. row_fragile r) (mset (sort_values df))"
    by (simp add: pack_order_def mset_groupby_zone)
  also have "\<dots> = mset (sort_values df)"
    by (simp add: multiset_eq_iff)
  finally show ?thesis
    by (simp add: mset_sort_values)
qed

lemma sample_pack_order: "pack_order sample_df = sample_df"
  by code_simp

lemma sample_parts_cut:
  "list_all2 (\<lambda>row part. list_all (derived_from row) part
       \<and> sum_list (map qty part) = row_qty row) sample_df sample_parts
   \<and> concat sample_parts = concat (map snd (written sample_out))"
  by code_simp

text \<open>
  C4. In a run that completes on a frame whose quantities are not negative, every row of
  the frame is packed, once for each time it stands in the frame, and the lines of the
  picklist files, read file after file, are the lines cut from the rows in the order of
  packing: the lines of a row carry its fields and their \<^verbatim>\<open>qty\<close> add up to the row's quantity
  exactly, whether the row went into one picklist or was split over several.
\<close>

theorem quantity_conserved:
  assumes "generate_picklists today df = Some (Inr out)" and "\<forall>r \<in> set df. 0 \<le> row_qty r"
  shows "mset (pack_order df) = mset df
         \<and> (\<exists>parts. list_all2 (\<lambda>row part. list_all (derived_from row) part
                        \<and> sum_list (map qty part) = row_qty row) (pack_order df) parts
               \<and> concat parts = concat (map snd (written out)))"
proof -
  from generate_picklists_cut [OF assms(1)] obtain parts where
    p: "list_all2 cut_from (pack_order df) parts"
    "concat (map snd (written out)) = concat parts"
    by blast
  have "set (pack_order df) = set df"
    using mset_pack_order [of df] by (metis set_mset_mset)
  with assms(2) have nn: "\<forall>r \<in> set (pack_order df). 0 \<le> row_qty r"
    by simp
  have "list_all2 (\<lambda>row part. list_all (derived_from row) part
            \<and> sum_list (map qty part) = row_qty row) (pack_order df) parts"
    using p(1)
  proof (rule list.rel_mono_strong)
    fix row part
    assume "row \<in> set (pack_order df)" and "cut_from row part"
    with nn show "list_all (derived_from row) part \<and> sum_list (map qty part) = row_qty row"
      by (auto simp: cut_from_def lines_units_def)
  qed
  with p(2) mset_pack_order [of df] show ?thesis
    by auto
qed

theorem quantity_conserved_witness:
  "generate_picklists first_of_may sample_df = Some (Inr sample_out)
   \<and> list_all (\<lambda>r. 0 \<le> row_qty r) sample_df
   \<and> pack_order sample_df = sample_df
   \<and> list_all2 (\<lambda>row part. list_all (derived_from row) part
         \<and> sum_list (map qty part) = row_qty row) sample_df sample_parts
   \<and> concat sample_parts = concat (map snd (written sample_out))
   \<and> (\<exists>parts. list_all2 (\<lambda>row part. list_all (derived_from row) part
                  \<and> sum_list (map qty part) = row_qty row) (pack_order sample_df) parts
         \<and> concat parts = concat (map snd (written sample_out)))"
proof -
  have h: "list_all (\<lambda>r. 0 \<le> row_qty r) sample_df"
    by (simp add: sample_df_def sample_row_def)
  then have h': "\<forall>r \<in> set sample_df. 0 \<le> row_qty r"
    by (simp add: list_all_iff)
  show ?thesis
    using sample_run h sample_pack_order sample_parts_cut
      quantity_conserved [OF sample_run h']
    by simp
qed

subsection \<open>The order of the rows\<close>

lemma sort_key3_le:
  "sort_key3 a \<le> sort_key3 b \<longleftrightarrow>
     row_cutoff a < row_cutoff b
     \<or> (row_cutoff a = row_cutoff b
        \<and> (row_priority a < row_priority b
           \<or> (row_priority a = row_priority b \<and> row_order a \<le> row_order b)))"
  by (auto simp: sort_key3_def)

lemma sort_values_sorted: "sorted (map sort_key3 (sort_values df))"
  by (simp add: sort_values_def sorted_sort_key)

lemma sort_values_idem: "sort_values (sort_values df) = sort_values df"
  using sort_values_sorted [of df] by (simp add: sort_values_def sort_key_id_if_sorted)

lemma filter_other_zone:
  "z \<noteq> z' \<Longrightarrow> filter (\<lambda>r. row_zone r = z \<and> P r) (filter (\<lambda>r. row_zone r = z') xs) = []"
  by (induction xs) auto

lemma filter_same_zone:
  "filter (\<lambda>r. row_zone r = z \<and> P r) (filter (\<lambda>r. row_zone r = z) xs)
     = filter (\<lambda>r. row_zone r = z \<and> P r) xs"
  by (induction xs) auto

lemma filter_absent_zone:
  "z \<notin> row_zone ` set xs \<Longrightarrow> filter (\<lambda>r. row_zone r = z \<and> P r) xs = []"
  by (induction xs) auto

lemma filter_groups:
  "distinct zs \<Longrightarrow>
     filter (\<lambda>r. row_zone r = z \<and> P r)
       (concat (map (\<lambda>z'. filter (\<lambda>r. row_zone r = z') xs) zs))
     = (if z \<in> set zs then filter (\<lambda>r. row_zone r = z \<and> P r) xs else [])"
proof (induction zs)
  case Nil
  then show ?case by simp
next
  case (Cons z' zs)
  show ?case
  proof (cases "z = z'")
    case True
    with Cons show ?thesis
      by (simp add: filter_same_zone)
  next
    case False
    with Cons show ?thesis
      by (simp add: filter_other_zone)
  qed
qed

lemma filter_groupby_zone:
  "filter (\<lambda>r. row_zone r = z \<and> P r) (concat (map snd (groupby_zone xs)))
     = filter (\<lambda>r. row_zone r = z \<and> P r) xs"
proof -
  have m: "map snd (groupby_zone xs)
          = map (\<lambda>z. filter (\<lambda>r. row_zone r = z) xs) (sort (remdups (map row_zone xs)))"
    by (simp add: groupby_zone_def comp_def)
  have d: "distinct (sort (remdups (map row_zone xs)))"
    by simp
  show ?thesis
  proof (cases "z \<in> row_zone ` set xs")
    case True
    then show ?thesis
      unfolding m filter_groups [OF d] by simp
  next
    case False
    then show ?thesis
      unfolding m filter_groups [OF d] by (simp add: filter_absent_zone)
  qed
qed

lemma pack_order_group:
  "filter (\<lambda>r. row_zone r = z \<and> row_fragile r = f) (pack_order df)
     = filter (\<lambda>r. row_zone r = z \<and> row_fragile r = f) (sort_values df)"
  by (cases f) (auto simp: pack_order_def filter_groupby_zone intro: filter_cong)

lemma unsorted_run:
  "generate_picklists first_of_may unsorted_df = Some (Inr unsorted_out)"
  by code_simp

lemma unsorted_pack_order: "pack_order unsorted_df = [early_row, late_row]"
  by code_simp

text \<open>
  C5. The first statement of \<^verbatim>\<open>generate_picklists\<close> sorts the frame, and the rows are
  packed from the sorted frame: in a run that completes, the lines of the picklist files,
  read file after file, are the lines cut from the rows in the order of packing, and within
  every zone and fragility class the order of packing is the order of the sorted frame. The
  sorted frame holds the rows of the input, ascending in the key (\<^verbatim>\<open>_cutoff\<close>, then
  \<^verbatim>\<open>_priority\<close>, then \<^verbatim>\<open>_order\<close>), and the sort is stable: for every key the rows of that
  key stand in the sorted frame in the order they have in the input.
\<close>

theorem rows_sorted_stably:
  assumes "generate_picklists today df = Some (Inr out)"
  shows "(\<exists>parts. list_all2 cut_from (pack_order df) parts
            \<and> concat (map snd (written out)) = concat parts)
   \<and> filter (\<lambda>r. row_zone r = z \<and> row_fragile r = f) (pack_order df)
       = filter (\<lambda>r. row_zone r = z \<and> row_fragile r = f) (sort_values df)
   \<and> sorted (map sort_key3 (sort_values df))
   \<and> (sort_key3 a \<le> sort_key3 b \<longleftrightarrow>
        row_cutoff a < row_cutoff b
        \<or> (row_cutoff a = row_cutoff b
           \<and> (row_priority a < row_priority b
              \<or> (row_priority a = row_priority b \<and> row_order a \<le> row_order b))))
   \<and> filter (\<lambda>r. sort_key3 r = k) (sort_values df) = filter (\<lambda>r. sort_key3 r = k) df
   \<and> mset (sort_values df) = mset df
   \<and> set (sort_values df) = set df \<and> length (sort_values df) = length df
   \<and> generate_picklists today df = generate_picklists today (sort_values df)"
proof -
  have "filter (\<lambda>r. sort_key3 r = k) (sort_values df) = filter (\<lambda>r. sort_key3 r = k) df"
    unfolding sort_values_def by (rule sort_key_stable)
  moreover have "generate_picklists today df = generate_picklists today (sort_values df)"
    by (simp add: generate_picklists_def sort_values_idem)
  moreover note generate_picklists_cut [OF assms] pack_order_group [of z f df]
    sort_values_sorted [of df] sort_key3_le [of a b] mset_sort_values [of df]
  ultimately show ?thesis
    by (simp add: sort_values_def)
qed

theorem rows_sorted_stably_witness:
  "generate_picklists first_of_may unsorted_df = Some (Inr unsorted_out)
   \<and> unsorted_df = [late_row, early_row]
   \<and> sort_key3 early_row \<le> sort_key3 late_row
   \<and> pack_order unsorted_df = [early_row, late_row]
   \<and> concat (map snd (written unsorted_out))
       = [sample_line ''early'' 5 1 False, sample_line ''late'' 3 1 False]
   \<and> (\<exists>parts. list_all2 cut_from (pack_order unsorted_df) parts
         \<and> concat (map snd (written unsorted_out)) = concat parts)
   \<and> sorted (map sort_key3 (sort_values unsorted_df))"
proof -
  have k: "sort_key3 early_row \<le> sort_key3 late_row"
    by (simp add: sort_key3_def early_row_def late_row_def sample_row_def)
  have w: "concat (map snd (written unsorted_out))
       = [sample_line ''early'' 5 1 False, sample_line ''late'' 3 1 False]"
    by (simp add: unsorted_out_def)
  show ?thesis
    using unsorted_run unsorted_pack_order k w
      rows_sorted_stably [OF unsorted_run, of "''A''" False early_row late_row
        "sort_key3 early_row"]
    by (simp add: unsorted_df_def)
qed

subsection \<open>The quality score\<close>

lemma clip_unit_eq: "clip x 0 1 = clip_unit x"
  by (simp add: clip_def clip_unit_def)

lemma clip_unit_bounds: "0 \<le> clip_unit x \<and> clip_unit x \<le> 1"
  by (simp add: clip_unit_def)

lemma total_violations_le: "total_violations df \<le> length df"
  by (simp add: total_violations_def)

lemma percent_le:
  fixes a b :: rat
  assumes "a / b \<le> 1"
  shows "a / b * 100 \<le> 100"
proof -
  have "a / b * 100 \<le> 1 * 100"
    using assms by (intro mult_right_mono) simp_all
  then show ?thesis by (simp del: times_divide_eq_left)
qed

lemma weighted_sum_bounds:
  fixes x y z u :: rat
  assumes "0 \<le> x" "x \<le> 1" "0 \<le> y" "y \<le> 1" "0 \<le> z" "z \<le> 1" "0 \<le> u" "u \<le> 1"
  shows "0 \<le> 4 / 10 * x + 3 / 10 * y + 2 / 10 * z + 1 / 10 * u
         \<and> 4 / 10 * x + 3 / 10 * y + 2 / 10 * z + 1 / 10 * u \<le> 1"
  using assms by simp

lemma violation_rate_bounds: "0 \<le> violation_rate df \<and> violation_rate df \<le> 100"
proof (cases "length df > 0")
  case True
  have "(of_nat (total_violations df) :: rat) \<le> of_nat (length df)"
    using total_violations_le [of df] by (simp only: of_nat_le_iff)
  with True have "(of_nat (total_violations df) :: rat) / of_nat (length df) \<le> 1"
    by (simp add: divide_le_eq_1)
  then have "(of_nat (total_violations df) :: rat) / of_nat (length df) * 100 \<le> 100"
    by (rule percent_le)
  then show ?thesis
    using True by (simp add: violation_rate_def del: times_divide_eq_left)
next
  case False
  then show ?thesis by (simp add: violation_rate_def)
qed

lemma PQS_spec_bounds:
  assumes "0 \<le> v" and "v \<le> 100"
  shows "0 \<le> PQS_spec a b c v \<and> PQS_spec a b c v \<le> 1"
proof -
  have "0 \<le> 1 - v / 100" "1 - v / 100 \<le> 1"
    using assms by simp_all
  moreover have "0 \<le> clip_unit (a / 100)" "clip_unit (a / 100) \<le> 1"
    "0 \<le> clip_unit (b / 100)" "clip_unit (b / 100) \<le> 1"
    "0 \<le> clip_unit (c / 20)" "clip_unit (c / 20) \<le> 1"
    by (simp_all add: clip_unit_bounds)
  ultimately show ?thesis
    unfolding PQS_spec_def by (intro weighted_sum_bounds)
qed

text \<open>
  C8. The score computed by \<^verbatim>\<open>evaluate_picklists\<close> is the weighted sum
  \<open>0.4 clip(avg_unit_util/100) + 0.3 clip(avg_weight_util/100) + 0.2 clip(avg_orders/20)
  + 0.1 (1 - violation_rate/100)\<close> of the aggregates of the frame (after the weight unit
  check), each clip into \<open>[0, 1]\<close>, and for a non-empty summary it lies in \<open>[0, 1]\<close>.
\<close>

theorem PQS_formula_and_range:
  assumes "summary_csv \<noteq> []"
  shows "PQS summary_csv
           = PQS_spec (avg_unit_util (rescale_weights summary_csv))
               (avg_weight_util (rescale_weights summary_csv))
               (avg_orders (rescale_weights summary_csv))
               (violation_rate (rescale_weights summary_csv))
         \<and> 0 \<le> PQS summary_csv \<and> PQS summary_csv \<le> 1"
proof -
  let ?df = "rescale_weights summary_csv"
  have eq: "PQS summary_csv
           = PQS_spec (avg_unit_util ?df) (avg_weight_util ?df) (avg_orders ?df)
               (violation_rate ?df)"
    by (simp add: PQS_def PQS_spec_def Let_def clip_unit_eq)
  from violation_rate_bounds [of ?df] PQS_spec_bounds
  have "0 \<le> PQS_spec (avg_unit_util ?df) (avg_weight_util ?df) (avg_orders ?df)
               (violation_rate ?df)
        \<and> PQS_spec (avg_unit_util ?df) (avg_weight_util ?df) (avg_orders ?df)
               (violation_rate ?df) \<le> 1"
    by blast
  with eq show ?thesis by simp
qed

lemma sample_PQS: "PQS sample_summary = 4887 / 10000"
  by code_simp

theorem PQS_formula_and_range_witness:
  "sample_summary \<noteq> [] \<and> 0 \<le> PQS sample_summary \<and> PQS sample_summary \<le> 1
   \<and> PQS sample_summary = 4887 / 10000"
proof -
  have h: "sample_summary \<noteq> []"
    by (simp add: sample_summary_def)
  show ?thesis
    using h PQS_formula_and_range [OF h] sample_PQS by simp
qed

end
